theory Spec2Isabelle
  imports Main
begin

unbundle bit_operations_syntax

section \<open>DIO timing calibration of the HDAWG8 driver\<close>

text \<open>
  The development embeds the DIO calibration helpers of
  \<^verbatim>\<open>ZI_HDAWG8.py\<close>. Bus samples are Python integers, hence \<^typ>\<open>int\<close>, with
  the bitwise operations of HOL on them: a left shift is \<open>push_bit\<close>, a right
  shift is \<open>drop_bit\<close> (both round as Python does on negative numbers).
  Bit indices and shift counts come from unsigned device nodes and are naturals
  (Python raises \<^verbatim>\<open>ValueError\<close> on a negative shift count; the type excludes it).
\<close>

subsection \<open>Edge detection: \<^verbatim>\<open>_get_edges\<close>\<close>

definition get_edges :: "int \<Rightarrow> int \<Rightarrow> int \<Rightarrow> int \<times> int" where
  "get_edges val last_value msk =
     (let changed = val XOR last_value;
          re = changed AND val AND msk;
          fe = changed AND NOT val AND msk
      in (re, fe))"

subsection \<open>Trace analysis: \<^verbatim>\<open>_analyze_dio_data\<close>\<close>

text \<open>
  One pass of the loop body for a sample at position \<open>n > 0\<close>, with \<open>last_d\<close> the
  sample before it. The flags \<open>strb_re\<close>, \<open>strb_fe\<close>, ... hold either a Python
  boolean or an integer returned by \<open>get_edges\<close>; only their truth value is ever
  used, so they are booleans here (an integer is true when it is not 0).
  The accumulator is the pair \<open>(codewords, timing_violations)\<close>.
\<close>

definition analyze_sample ::
  "int \<Rightarrow> int \<Rightarrow> int \<Rightarrow> int \<Rightarrow> int \<Rightarrow> nat \<Rightarrow> nat \<Rightarrow> int \<Rightarrow> int \<Rightarrow>
   int list \<times> nat list \<Rightarrow> int list \<times> nat list" where
  "analyze_sample strb_mask strb_slope vld_mask vld_polarity cw_mask cw_shift n d last_d acc =
     (let (strb_re, strb_fe) =
            (if strb_slope = 0 then (True, True)
             else if strb_slope = 1 then (fst (get_edges d last_d strb_mask) \<noteq> 0, False)
             else if strb_slope = 2 then (False, snd (get_edges d last_d strb_mask) \<noteq> 0)
             else (fst (get_edges d last_d strb_mask) \<noteq> 0,
                   snd (get_edges d last_d strb_mask) \<noteq> 0));
          (vld_re, vld_fe) =
            (if vld_polarity \<noteq> 0
             then (fst (get_edges d last_d vld_mask) \<noteq> 0, snd (get_edges d last_d vld_mask) \<noteq> 0)
             else (False, False));
          (d_re, d_fe) =
            (if cw_mask \<noteq> 0
             then (fst (get_edges d last_d (push_bit cw_shift cw_mask)) \<noteq> 0,
                   snd (get_edges d last_d (push_bit cw_shift cw_mask)) \<noteq> 0)
             else (False, False));
          vld_active = ((vld_polarity AND 1 \<noteq> 0 \<and> d AND vld_mask = 0) \<or>
                        (vld_polarity AND 2 \<noteq> 0 \<and> d AND vld_mask \<noteq> 0));
          codeword = drop_bit cw_shift d AND cw_mask;
          timing_violations =
            (if (strb_re \<or> strb_fe) \<and> (vld_re \<or> vld_fe) then snd acc @ [n]
             else if (strb_re \<or> strb_fe) \<and> (d_re \<or> d_fe) then snd acc @ [n]
             else snd acc);
          codewords =
            (if (strb_re \<or> strb_fe) \<and> vld_active then fst acc @ [codeword] else fst acc)
      in (codewords, timing_violations))"

text \<open>
  The loop over \<open>enumerate(data)\<close> from position \<open>n\<close> on. The first iteration of the
  source (\<open>n = 0\<close>) only stores \<open>last_d\<close>.
\<close>

fun analyze_from ::
  "int \<Rightarrow> int \<Rightarrow> int \<Rightarrow> int \<Rightarrow> int \<Rightarrow> nat \<Rightarrow> nat \<Rightarrow> int \<Rightarrow> int list \<Rightarrow>
   int list \<times> nat list \<Rightarrow> int list \<times> nat list" where
  "analyze_from sm ss vm vp cm cs n last_d [] acc = acc"
| "analyze_from sm ss vm vp cm cs n last_d (d # ds) acc =
     analyze_from sm ss vm vp cm cs (Suc n) d ds
       (analyze_sample sm ss vm vp cm cs n d last_d acc)"

definition analyze_dio_data ::
  "int list \<Rightarrow> int \<Rightarrow> int \<Rightarrow> int \<Rightarrow> int \<Rightarrow> int \<Rightarrow> nat \<Rightarrow> int list \<times> nat list" where
  "analyze_dio_data data strb_mask strb_slope vld_mask vld_polarity cw_mask cw_shift =
     (case data of
        [] \<Rightarrow> ([], [])
      | d0 # ds \<Rightarrow>
          analyze_from strb_mask strb_slope vld_mask vld_polarity cw_mask cw_shift 1 d0 ds ([], []))"

subsection \<open>Strobe symmetry: \<^verbatim>\<open>_is_dio_strb_symmetric\<close>\<close>

text \<open>The local variables of the inner loop, for one strobe bit.\<close>

record strb_state =
  count_low :: bool
  count_high :: bool
  strobe_low :: nat
  strobe_high :: nat
  last_strobe :: "bool option"

definition strb_init :: strb_state where
  "strb_init = \<lparr>count_low = False, count_high = False, strobe_low = 0, strobe_high = 0,
                 last_strobe = None\<rparr>"

text \<open>
  The body of the inner loop for a sample whose strobe level is \<open>curr_strobe\<close>;
  \<open>None\<close> stands for \<^verbatim>\<open>count_ok = False; break\<close>.
\<close>

definition strb_step :: "strb_state \<Rightarrow> bool \<Rightarrow> strb_state option" where
  "strb_step s curr_strobe =
     (if count_high s \<and> \<not> curr_strobe \<and> strobe_low s > 0 \<and> strobe_low s \<noteq> strobe_high s
      then None
      else
        let s1 = (if count_high s \<and> curr_strobe
                  then s\<lparr>strobe_high := strobe_high s + 1\<rparr> else s)
        in
        if count_low s1 \<and> curr_strobe \<and> strobe_high s1 > 0 \<and> strobe_low s1 \<noteq> strobe_high s1
        then None
        else
          let s2 = (if count_low s1 \<and> \<not> curr_strobe
                    then s1\<lparr>strobe_low := strobe_low s1 + 1\<rparr> else s1);
              s3 = (case last_strobe s2 of
                      None \<Rightarrow> s2
                    | Some l \<Rightarrow>
                        if curr_strobe \<and> \<not> l
                        then s2\<lparr>strobe_high := 0, count_high := True, count_low := False\<rparr>
                        else if \<not> curr_strobe \<and> l
                        then s2\<lparr>strobe_low := 0, count_low := True, count_high := False\<rparr>
                        else s2)
          in Some (s3\<lparr>last_strobe := Some curr_strobe\<rparr>))"

fun strb_scan :: "int \<Rightarrow> strb_state \<Rightarrow> int list \<Rightarrow> bool" where
  "strb_scan strobe_mask s [] = True"
| "strb_scan strobe_mask s (d # ds) =
     (case strb_step s (d AND strobe_mask \<noteq> 0) of
        None \<Rightarrow> False
      | Some s' \<Rightarrow> strb_scan strobe_mask s' ds)"

text \<open>The outer loop over the strobe bits stops at the first bit that fails.\<close>

fun is_dio_strb_symmetric :: "int list \<Rightarrow> nat list \<Rightarrow> bool" where
  "is_dio_strb_symmetric data [] = True"
| "is_dio_strb_symmetric data (b # bits) =
     (if strb_scan (push_bit b 1) strb_init data
      then is_dio_strb_symmetric data bits else False)"

text \<open>
  Run lengths, for stating properties of the check: \<open>runs\<close> gives the maximal blocks
  of equal strobe levels of a line as (level, number of samples), in trace order. A
  run is closed when an edge delimits it on both sides, that is, when it is neither
  the first nor the last run of the trace.
\<close>

fun runs :: "bool list \<Rightarrow> (bool \<times> nat) list" where
  "runs [] = []"
| "runs [x] = [(x, 1)]"
| "runs (x # y # zs) =
     (if x = y then (x, Suc (snd (hd (runs (y # zs))))) # tl (runs (y # zs))
      else (x, 1) # runs (y # zs))"

definition strobe_levels :: "int list \<Rightarrow> nat \<Rightarrow> bool list" where
  "strobe_levels data b = map (\<lambda>d. bit d b) data"

definition closed_runs :: "int list \<Rightarrow> nat \<Rightarrow> (bool \<times> nat) list" where
  "closed_runs data b = butlast (tl (runs (strobe_levels data b)))"

definition equal_high_low :: "(bool \<times> nat) list \<Rightarrow> bool" where
  "equal_high_low rs \<longleftrightarrow>
     (\<forall>h \<in> set rs. \<forall>l \<in> set rs. fst h \<and> \<not> fst l \<longrightarrow> snd h = snd l)"

subsection \<open>The instrument\<close>

text \<open>
  The driver talks to the instrument through \<^verbatim>\<open>self._dev.geti\<close>, \<^verbatim>\<open>seti\<close> and
  \<^verbatim>\<open>getv\<close>. The record holds the integer nodes the calibration reads or writes,
  indexed by AWG number, and the traces the instrument delivers: \<open>captures dev k\<close> is
  the vector returned by the \<open>k\<close>-th call of \<^verbatim>\<open>getv\<close>, and \<open>captured\<close> counts the
  calls made so far. Writing \<^verbatim>\<open>dio/delay/value\<close> programs the delay of the bit that
  \<^verbatim>\<open>dio/delay/index\<close> selects. \<open>console\<close> collects the lines that are printed
  whatever \<^verbatim>\<open>verbose\<close> is; the model runs with \<^verbatim>\<open>verbose=False\<close>.
\<close>

record device =
  dio_strobe_index :: "nat \<Rightarrow> nat"
  dio_strobe_slope :: "nat \<Rightarrow> int"
  dio_valid_index :: "nat \<Rightarrow> nat"
  dio_valid_polarity :: "nat \<Rightarrow> int"
  dio_mask_value :: "nat \<Rightarrow> int"
  dio_mask_shift :: "nat \<Rightarrow> nat"
  awg_enable :: "nat \<Rightarrow> int"
  dio_delay_index :: "nat \<Rightarrow> nat"
  dio_delay_value :: "nat \<Rightarrow> nat \<Rightarrow> int"
  referenceclock_source :: int
  captures :: "nat \<Rightarrow> int list"
  captured :: nat
  console :: "string list"

definition getv :: "device \<Rightarrow> int list \<times> device" where
  "getv dev = (captures dev (captured dev), dev\<lparr>captured := Suc (captured dev)\<rparr>)"

definition print_line :: "string \<Rightarrow> device \<Rightarrow> device" where
  "print_line msg dev = dev\<lparr>console := console dev @ [msg]\<rparr>"

definition seti_delay_index :: "nat \<Rightarrow> nat \<Rightarrow> device \<Rightarrow> device" where
  "seti_delay_index awg i dev = dev\<lparr>dio_delay_index := (dio_delay_index dev)(awg := i)\<rparr>"

definition seti_delay_value :: "nat \<Rightarrow> int \<Rightarrow> device \<Rightarrow> device" where
  "seti_delay_value awg v dev =
     dev\<lparr>dio_delay_value :=
           (dio_delay_value dev)(awg := (dio_delay_value dev awg)(dio_delay_index dev awg := v))\<rparr>"

definition seti_enable :: "nat \<Rightarrow> int \<Rightarrow> device \<Rightarrow> device" where
  "seti_enable awg v dev = dev\<lparr>awg_enable := (awg_enable dev)(awg := v)\<rparr>"

subsection \<open>Delay configuration: \<^verbatim>\<open>_set_dio_delay\<close>\<close>

definition set_dio_delay :: "nat \<Rightarrow> int \<Rightarrow> int \<Rightarrow> int \<Rightarrow> device \<Rightarrow> device" where
  "set_dio_delay awg strb_mask data_mask delay dev =
     (let dev1 = (if delay < 0 then print_line ''WARNING: Clamping delay to 0'' dev else dev);
          (delay1, dev2) =
            (if delay > 6 then (6, print_line ''WARNING: Clamping delay to 6'' dev1)
             else (delay, dev1));
          (strb_delay, data_delay) = (if delay1 > 3 then (delay1 - 3, 0) else (0, 3 - delay1))
      in fold (\<lambda>i d.
                 let d' = seti_delay_index awg i d in
                 if strb_mask AND push_bit i 1 \<noteq> 0 then seti_delay_value awg strb_delay d'
                 else if data_mask AND push_bit i 1 \<noteq> 0 then seti_delay_value awg data_delay d'
                 else seti_delay_value awg 0 d')
              [0..<32] dev2)"

subsection \<open>Delay search: \<^verbatim>\<open>_find_valid_delays\<close>\<close>

text \<open>
  The comparison of the detected codewords with the expected sequence. \<open>index_of\<close>
  is \<^verbatim>\<open>list.index\<close>, called only for a member of the list. \<open>follow_sequence\<close> is the
  loop for the positions \<open>n > 0\<close>, \<open>valid_sequence\<close> the whole loop with the flag it
  leaves.
\<close>

fun index_of :: "int list \<Rightarrow> int \<Rightarrow> nat" where
  "index_of [] c = 0"
| "index_of (x # xs) c = (if x = c then 0 else Suc (index_of xs c))"

fun follow_sequence :: "int list \<Rightarrow> nat \<Rightarrow> int list \<Rightarrow> bool" where
  "follow_sequence expected_sequence idx [] = True"
| "follow_sequence expected_sequence idx (codeword # rest) =
     (let idx' = (idx + 1) mod length expected_sequence
      in if codeword \<noteq> expected_sequence ! idx' then False
         else follow_sequence expected_sequence idx' rest)"

definition valid_sequence :: "int list \<Rightarrow> int list \<Rightarrow> bool" where
  "valid_sequence expected_sequence codewords =
     (case codewords of
        [] \<Rightarrow> True
      | codeword # rest \<Rightarrow>
          if codeword \<notin> set expected_sequence then False
          else follow_sequence expected_sequence (index_of expected_sequence codeword) rest)"

text \<open>
  The \<^verbatim>\<open>while\<close> loop that samples again while no codeword is detected. \<open>r\<close> is the
  pair \<open>(codewords, timing_violations)\<close> of the latest analysis.
\<close>

function retry_capture ::
  "int \<Rightarrow> int \<Rightarrow> int \<Rightarrow> int \<Rightarrow> int \<Rightarrow> nat \<Rightarrow> nat \<Rightarrow> int list \<times> nat list \<Rightarrow> device \<Rightarrow>
   (int list \<times> nat list) \<times> device" where
  "retry_capture strb_mask strb_slope vld_mask vld_polarity cw_mask cw_shift timeout_cnt r dev =
     (if cw_mask \<noteq> 0 \<and> length (fst r) = 0
      then (if timeout_cnt > 5 then (r, dev)
            else case getv dev of (data, dev') \<Rightarrow>
              retry_capture strb_mask strb_slope vld_mask vld_polarity cw_mask cw_shift
                (timeout_cnt + 1)
                (analyze_dio_data data strb_mask strb_slope vld_mask vld_polarity cw_mask cw_shift)
                dev')
      else (r, dev))"
  by pat_completeness auto
termination
  by (relation "measure (\<lambda>(sm, ss, vm, vp, cm, cs, timeout_cnt, r, dev). 6 - timeout_cnt)") auto

text \<open>The body of the loop over the delays; the state is \<open>(valid_delays, dev)\<close>.\<close>

definition delay_body ::
  "nat \<Rightarrow> int list \<Rightarrow> int \<Rightarrow> int \<Rightarrow> int \<Rightarrow> int \<Rightarrow> int \<Rightarrow> nat \<Rightarrow> int \<Rightarrow>
   int list \<times> device \<Rightarrow> int list \<times> device" where
  "delay_body awg expected_sequence vld_mask vld_polarity strb_mask strb_slope cw_mask cw_shift
     delay st =
     (let dev1 = set_dio_delay awg strb_mask (push_bit cw_shift cw_mask OR vld_mask) delay (snd st);
          (data, dev2) = getv dev1;
          (r, dev3) =
            retry_capture strb_mask strb_slope vld_mask vld_polarity cw_mask cw_shift 0
              (analyze_dio_data data strb_mask strb_slope vld_mask vld_polarity cw_mask cw_shift)
              dev2;
          codewords = fst r;
          timing_violations = snd r
      in if cw_mask \<noteq> 0 \<and> length codewords = 0 then (fst st, dev3)
         else if timing_violations \<noteq> [] then (fst st, dev3)
         else if valid_sequence expected_sequence codewords then (fst st @ [delay], dev3)
         else (fst st, dev3))"

definition find_valid_delays :: "nat \<Rightarrow> int list \<Rightarrow> device \<Rightarrow> int set \<times> device" where
  "find_valid_delays awg expected_sequence dev =
     (let vld_mask = push_bit (dio_valid_index dev awg) 1;
          vld_polarity = dio_valid_polarity dev awg;
          strb_mask = push_bit (dio_strobe_index dev awg) 1;
          strb_slope = dio_strobe_slope dev awg;
          cw_mask = dio_mask_value dev awg;
          cw_shift = dio_mask_shift dev awg;
          (valid_delays, dev') =
            fold (delay_body awg expected_sequence vld_mask vld_polarity strb_mask strb_slope
                    cw_mask cw_shift)
              [0..6] ([], dev)
      in (set valid_delays, dev'))"

subsection \<open>Strobe recovery: \<^verbatim>\<open>_ensure_symmetric_strobe\<close>\<close>

text \<open>
  The \<^verbatim>\<open>else\<close> branch of the loop: the enable state of the four AWGs is saved and
  cleared, the reference clock goes to internal (0) and back to external (1), and
  the enable state is written back. The two \<^verbatim>\<open>time.sleep(5)\<close> calls have no
  counterpart here.
\<close>

definition resync_clock :: "device \<Rightarrow> device" where
  "resync_clock dev =
     (let (enables, dev1) =
            fold (\<lambda>awg (en, d). (en[awg := awg_enable d awg], seti_enable awg 0 d))
              [0..<4] (replicate 4 0, dev);
          dev2 = dev1\<lparr>referenceclock_source := 0\<rparr>;
          dev3 = dev2\<lparr>referenceclock_source := 1\<rparr>
      in fold (\<lambda>awg d. seti_enable awg (enables ! awg) d) [0..<4] dev3)"

text \<open>
  \<^verbatim>\<open>list(set(strb_bits))\<close>: the strobe bit indices of the four AWGs without
  duplicates. The order of the list plays no role in \<open>is_dio_strb_symmetric\<close>.
\<close>

definition strobe_bits :: "device \<Rightarrow> nat list" where
  "strobe_bits dev = remdups (map (dio_strobe_index dev) [0..<4])"

text \<open>
  The \<^verbatim>\<open>while not done\<close> loop. Nothing bounds the number of its iterations, so it is
  a partial function: \<open>None\<close> means that the loop runs forever. It returns the
  counters \<open>(good_shots, bad_shots)\<close> and the instrument.
\<close>

partial_function (option) strobe_loop ::
  "nat list \<Rightarrow> nat \<Rightarrow> nat \<Rightarrow> device \<Rightarrow> (nat \<times> nat \<times> device) option" where
  "strobe_loop strb_bits good_shots bad_shots dev =
     (case getv dev of (data, dev1) \<Rightarrow>
        if is_dio_strb_symmetric data strb_bits
        then (if good_shots + 1 > 5 then Some (good_shots + 1, 0, dev1)
              else strobe_loop strb_bits (good_shots + 1) 0 dev1)
        else (let dev2 = resync_clock dev1
              in if bad_shots + 1 > 5 then Some (0, bad_shots + 1, dev2)
                 else strobe_loop strb_bits 0 (bad_shots + 1) dev2))"

definition ensure_symmetric_strobe :: "device \<Rightarrow> (bool \<times> device) option" where
  "ensure_symmetric_strobe dev =
     (case strobe_loop (strobe_bits dev) 0 0 dev of
        None \<Rightarrow> None
      | Some (good_shots, bad_shots, dev') \<Rightarrow> Some (good_shots > 0 \<and> bad_shots = 0, dev'))"

subsection \<open>The calibration: \<^verbatim>\<open>calibrate_dio_protocol\<close>\<close>

datatype error = TypeError | ValueError

text \<open>
  The first loop over the channels: \<open>None\<close> is the \<^verbatim>\<open>return False\<close> taken when a
  channel has no valid delay.
\<close>

fun collect_valid_delays ::
  "(nat \<times> int list) list \<Rightarrow> int set list \<Rightarrow> device \<Rightarrow> int set list option \<times> device" where
  "collect_valid_delays [] all_valid_delays dev = (Some all_valid_delays, dev)"
| "collect_valid_delays ((awg, sequence) # rest) all_valid_delays dev =
     (case find_valid_delays awg sequence dev of (valid_delays, dev') \<Rightarrow>
        if valid_delays \<noteq> {} then collect_valid_delays rest (all_valid_delays @ [valid_delays]) dev'
        else (None, dev'))"

text \<open>The last loop: the chosen delay is written to every channel.\<close>

definition configure_delays :: "(nat \<times> int list) list \<Rightarrow> int \<Rightarrow> device \<Rightarrow> device" where
  "configure_delays awgs_and_sequences max_valid_delay dev =
     fold (\<lambda>(awg, _) d.
             let vld_mask = push_bit (dio_valid_index d awg) 1;
                 strb_mask = push_bit (dio_strobe_index d awg) 1;
                 cw_mask = dio_mask_value d awg;
                 cw_shift = dio_mask_shift d awg
             in set_dio_delay awg strb_mask (push_bit cw_shift cw_mask OR vld_mask)
                  max_valid_delay d)
       awgs_and_sequences dev"

text \<open>
  The result is \<open>None\<close> when the strobe loop does not end, \<open>Inr b\<close> for
  \<^verbatim>\<open>return b\<close>, and \<open>Inl e\<close> for an exception: \<^verbatim>\<open>set.intersection()\<close> without an
  argument raises \<^verbatim>\<open>TypeError\<close>, \<^verbatim>\<open>max\<close> of an empty set raises \<^verbatim>\<open>ValueError\<close>.
\<close>

definition calibrate_dio_protocol ::
  "(nat \<times> int list) list \<Rightarrow> device \<Rightarrow> ((error + bool) \<times> device) option" where
  "calibrate_dio_protocol awgs_and_sequences dev =
     (case ensure_symmetric_strobe dev of
        None \<Rightarrow> None
      | Some (symmetric, dev1) \<Rightarrow>
          if \<not> symmetric then Some (Inr False, dev1)
          else
            (case collect_valid_delays awgs_and_sequences [] dev1 of
               (None, dev2) \<Rightarrow> Some (Inr False, dev2)
             | (Some all_valid_delays, dev2) \<Rightarrow>
                 if all_valid_delays = [] then Some (Inl TypeError, dev2)
                 else
                   let combined_valid_delays = \<Inter> (set all_valid_delays)
                   in if combined_valid_delays = {} then Some (Inl ValueError, dev2)
                      else
                        let max_valid_delay = Max combined_valid_delays
                        in Some (Inr True,
                                 configure_delays awgs_and_sequences max_valid_delay dev2)))"

declare retry_capture.simps [simp del]

subsection \<open>Notions used to state the properties\<close>

text \<open>
  Edges of the bits under a mask between the previous and the current sample: a bit
  rises when it is 0 before and 1 now, and falls when it is 1 before and 0 now.
\<close>

definition rising_bits :: "int \<Rightarrow> int \<Rightarrow> int \<Rightarrow> int" where
  "rising_bits m cur prev = m AND cur AND NOT prev"

definition falling_bits :: "int \<Rightarrow> int \<Rightarrow> int \<Rightarrow> int" where
  "falling_bits m cur prev = m AND prev AND NOT cur"

definition any_edge :: "int \<Rightarrow> int \<Rightarrow> int \<Rightarrow> bool" where
  "any_edge m cur prev \<longleftrightarrow> rising_bits m cur prev \<noteq> 0 \<or> falling_bits m cur prev \<noteq> 0"

text \<open>
  A sample point under the strobe edge policy: 0 takes every sample, 1 the rising
  edges of the strobe, 2 its falling edges, any other value both.
\<close>

definition sample_point :: "int \<Rightarrow> int \<Rightarrow> int \<Rightarrow> int \<Rightarrow> bool" where
  "sample_point slope m cur prev \<longleftrightarrow>
     (if slope = 0 then True
      else if slope = 1 then rising_bits m cur prev \<noteq> 0
      else if slope = 2 then falling_bits m cur prev \<noteq> 0
      else any_edge m cur prev)"

text \<open>
  The valid polarity is a bit field: bit 0 makes a sample active when its valid bit
  is 0, bit 1 when its valid bit is 1.
\<close>

definition valid_active :: "int \<Rightarrow> int \<Rightarrow> int \<Rightarrow> bool" where
  "valid_active vp vm d \<longleftrightarrow> (bit vp 0 \<and> d AND vm = 0) \<or> (bit vp 1 \<and> d AND vm \<noteq> 0)"

text \<open>
  States of the strobe check after the first sample: \<open>idle v\<close> before the first edge,
  \<open>counting v c p\<close> in a run of level \<open>v\<close> with the counter of that run at \<open>c\<close> and the
  counter of the run before it at \<open>p\<close>.
\<close>

definition idle :: "bool \<Rightarrow> strb_state" where
  "idle v = \<lparr>count_low = False, count_high = False, strobe_low = 0, strobe_high = 0,
      last_strobe = Some v\<rparr>"

definition counting :: "bool \<Rightarrow> nat \<Rightarrow> nat \<Rightarrow> strb_state" where
  "counting v c p = \<lparr>count_low = \<not> v, count_high = v,
      strobe_low = (if v then p else c), strobe_high = (if v then c else p),
      last_strobe = Some v\<rparr>"

text \<open>
  The condition under which the analysis records a position: a sample point together
  with an edge of the valid bits, looked at only when the valid polarity is not 0, or
  with an edge of the codeword bits.
\<close>

definition violation_at :: "int \<Rightarrow> int \<Rightarrow> int \<Rightarrow> int \<Rightarrow> int \<Rightarrow> nat \<Rightarrow> int \<Rightarrow> int \<Rightarrow> bool" where
  "violation_at sm ss vm vp cm cs cur prev \<longleftrightarrow>
     sample_point ss sm cur prev \<and>
     ((vp \<noteq> 0 \<and> any_edge vm cur prev) \<or> any_edge (push_bit cs cm) cur prev)"

text \<open>
  The cyclic comparison in the words of the specification: the first codeword
  occurs in the expected sequence, and from its index on the codewords follow the
  expected sequence, wrapping around at its end. A list without codewords has
  nothing to compare.
\<close>

definition cyclic_match :: "int list \<Rightarrow> int list \<Rightarrow> bool" where
  "cyclic_match expected_sequence codewords \<longleftrightarrow>
     codewords = [] \<or>
     (hd codewords \<in> set expected_sequence \<and>
      (\<forall>k < length codewords.
         codewords ! k =
           expected_sequence !
             ((index_of expected_sequence (hd codewords) + k) mod length expected_sequence)))"

text \<open>
  The delay that a bit position receives: the strobe-side delay where the strobe mask
  has the bit, else the data-side delay where the data mask has it, else 0.
\<close>

definition bit_delay :: "int \<Rightarrow> int \<Rightarrow> int \<Rightarrow> int \<Rightarrow> nat \<Rightarrow> int" where
  "bit_delay strb_mask data_mask strb_delay data_delay i =
     (if bit strb_mask i then strb_delay else if bit data_mask i then data_delay else 0)"

text \<open>The body of the loop over the 32 bit positions in \<open>set_dio_delay\<close>.\<close>

definition delay_step :: "nat \<Rightarrow> int \<Rightarrow> int \<Rightarrow> int \<Rightarrow> int \<Rightarrow> nat \<Rightarrow> device \<Rightarrow> device" where
  "delay_step awg strb_mask data_mask strb_delay data_delay i d =
     (let d' = seti_delay_index awg i d in
      if strb_mask AND push_bit i 1 \<noteq> 0 then seti_delay_value awg strb_delay d'
      else if data_mask AND push_bit i 1 \<noteq> 0 then seti_delay_value awg data_delay d'
      else seti_delay_value awg 0 d')"

subsection \<open>Instruments for the examples\<close>

text \<open>
  An instrument with the strobe on bit 4, sampled on both edges, the valid bit on bit
  5, active high, and the codeword on bits 0 to 2, on every AWG; \<open>caps\<close> are the
  traces it delivers.
\<close>

definition bench :: "(nat \<Rightarrow> int list) \<Rightarrow> device" where
  "bench caps =
     \<lparr>dio_strobe_index = (\<lambda>_. 4), dio_strobe_slope = (\<lambda>_. 3),
      dio_valid_index = (\<lambda>_. 5), dio_valid_polarity = (\<lambda>_. 2),
      dio_mask_value = (\<lambda>_. 7), dio_mask_shift = (\<lambda>_. 0),
      awg_enable = (\<lambda>_. 1), dio_delay_index = (\<lambda>_. 0), dio_delay_value = (\<lambda>_ _. 0),
      referenceclock_source = 1, captures = caps, captured = 0, console = []\<rparr>"

text \<open>
  Only the seventh trace shows a codeword: the valid bit is high, the codeword is 1 and
  the strobe rises.
\<close>

definition late_codeword :: "nat \<Rightarrow> int list" where
  "late_codeword k = (if k = 6 then [33, 49] else [])"

subsection \<open>The delay search as a function of the traces\<close>

text \<open>
  The search reads the instrument only through the traces and through the settings of
  the channel, and it moves the trace counter. \<open>decode dev awg k\<close> is the analysis of the
  \<open>k\<close>-th trace under the settings of channel \<open>awg\<close>. \<open>retry_from\<close>, \<open>try_delay\<close> follow
  the retry loop and one delay with the counter alone as state; \<open>n\<close> bounds the retries
  that are left.
\<close>

definition decode :: "device \<Rightarrow> nat \<Rightarrow> nat \<Rightarrow> int list \<times> nat list" where
  "decode dev awg k =
     analyze_dio_data (captures dev k) (push_bit (dio_strobe_index dev awg) 1)
       (dio_strobe_slope dev awg) (push_bit (dio_valid_index dev awg) 1)
       (dio_valid_polarity dev awg) (dio_mask_value dev awg) (dio_mask_shift dev awg)"

fun retry_from ::
  "(nat \<Rightarrow> int list \<times> nat list) \<Rightarrow> int \<Rightarrow> nat \<Rightarrow> nat \<Rightarrow> int list \<times> nat list \<Rightarrow>
   (int list \<times> nat list) \<times> nat" where
  "retry_from dec cm 0 c r = (r, c)"
| "retry_from dec cm (Suc n) c r =
     (if cm \<noteq> 0 \<and> fst r = [] then retry_from dec cm n (Suc c) (dec c) else (r, c))"

definition try_delay ::
  "(nat \<Rightarrow> int list \<times> nat list) \<Rightarrow> int list \<Rightarrow> int \<Rightarrow> int \<Rightarrow> int list \<times> nat \<Rightarrow>
   int list \<times> nat" where
  "try_delay dec e cm delay st =
     (let rc = retry_from dec cm 6 (Suc (snd st)) (dec (snd st));
          r = fst rc
      in (if cm \<noteq> 0 \<and> fst r = [] then fst st
          else if snd r \<noteq> [] then fst st
          else if valid_sequence e (fst r) then fst st @ [delay]
          else fst st,
          snd rc))"

text \<open>Two instruments with the same channel settings and the same traces.\<close>

definition same_setup :: "device \<Rightarrow> device \<Rightarrow> bool" where
  "same_setup dev dev' \<longleftrightarrow>
     dio_strobe_index dev' = dio_strobe_index dev \<and>
     dio_strobe_slope dev' = dio_strobe_slope dev \<and>
     dio_valid_index dev' = dio_valid_index dev \<and>
     dio_valid_polarity dev' = dio_valid_polarity dev \<and>
     dio_mask_value dev' = dio_mask_value dev \<and>
     dio_mask_shift dev' = dio_mask_shift dev \<and>
     captures dev' = captures dev"

subsection \<open>Outcomes of the strobe captures\<close>

text \<open>
  \<open>capture_symmetric dev k\<close> tells whether the \<open>k\<close>-th trace from now passes the strobe
  check. \<open>streak out v k\<close> is the number of outcomes equal to \<open>v\<close> in a row at the end of
  the first \<open>k\<close> outcomes. \<open>after_captures dev k\<close> is the instrument after \<open>k\<close> passes of
  the recovery loop: \<open>k\<close> more traces are taken, and the reference clock is on external
  (1) once a pass has gone through the resynchronisation.
\<close>

definition capture_symmetric :: "device \<Rightarrow> nat \<Rightarrow> bool" where
  "capture_symmetric dev k =
     is_dio_strb_symmetric (captures dev (captured dev + k)) (strobe_bits dev)"

fun streak :: "(nat \<Rightarrow> bool) \<Rightarrow> bool \<Rightarrow> nat \<Rightarrow> nat" where
  "streak out v 0 = 0"
| "streak out v (Suc k) = (if out k = v then Suc (streak out v k) else 0)"

definition after_captures :: "device \<Rightarrow> nat \<Rightarrow> device" where
  "after_captures dev k =
     dev\<lparr>captured := captured dev + k,
         referenceclock_source :=
           (if list_all (capture_symmetric dev) [0..<k] then referenceclock_source dev else 1)\<rparr>"

text \<open>
  Traces for the examples: on bit 4 the trace \<open>lopsided\<close> has a high run of three
  samples followed by a low run of one. \<open>five_good\<close> delivers five empty traces and
  lopsided ones from then on, \<open>alternating\<close> an empty and a lopsided trace in turn.
\<close>

definition lopsided :: "int list" where
  "lopsided = [0, 16, 16, 16, 0, 16]"

definition five_good :: "nat \<Rightarrow> int list" where
  "five_good k = (if k < 5 then [] else lopsided)"

definition alternating :: "nat \<Rightarrow> int list" where
  "alternating k = (if even k then [] else lopsided)"

subsection \<open>The channels of a calibration\<close>

text \<open>
  The Valid-Delay Set of each channel, the channels being searched one after the other
  on the same instrument, and the instrument after all the searches.
\<close>

fun search_results :: "(nat \<times> int list) list \<Rightarrow> device \<Rightarrow> int set list" where
  "search_results [] dev = []"
| "search_results ((awg, sequence) # rest) dev =
     fst (find_valid_delays awg sequence dev) #
     search_results rest (snd (find_valid_delays awg sequence dev))"

fun search_device :: "(nat \<times> int list) list \<Rightarrow> device \<Rightarrow> device" where
  "search_device [] dev = dev"
| "search_device ((awg, sequence) # rest) dev =
     search_device rest (snd (find_valid_delays awg sequence dev))"

text \<open>
  More traces for the examples. \<open>in_time\<close> carries the codewords 1, 2, 3 with the
  codeword bits at rest on every strobe edge; in \<open>too_late\<close> the codeword changes
  together with the strobe. In each of the instruments below the first six traces pass
  the strobe check, the next seven answer the delays 0 to 6 of the first channel and
  the seven after them those of the second channel.
\<close>

definition in_time :: "int list" where
  "in_time = [33, 49, 50, 34, 35, 51]"

definition too_late :: "int list" where
  "too_late = [33, 50]"

definition two_windows :: "nat \<Rightarrow> int list" where
  "two_windows k =
     (if k < 6 then [] else if k \<in> {7, 8, 9, 10, 15, 16, 17, 18} then in_time else too_late)"

definition disjoint_windows :: "nat \<Rightarrow> int list" where
  "disjoint_windows k =
     (if k < 6 then [] else if k \<in> {6, 7, 18, 19} then in_time else too_late)"

definition far_windows :: "nat \<Rightarrow> int list" where
  "far_windows k = (if k < 6 then [] else if k \<in> {6, 19} then in_time else too_late)"

section \<open>The trace analysis\<close>

lemma get_edges_rising: "fst (get_edges v l m) = rising_bits m v l"
  by (rule bit_eqI) (auto simp: get_edges_def Let_def rising_bits_def bit_simps)

lemma get_edges_falling: "snd (get_edges v l m) = falling_bits m v l"
  by (rule bit_eqI) (auto simp: get_edges_def Let_def falling_bits_def bit_simps)

text \<open>The two edge sets say, bit by bit, what their names promise.\<close>

lemma bit_rising_bits: "bit (rising_bits m cur prev) i \<longleftrightarrow> bit m i \<and> bit cur i \<and> \<not> bit prev i"
  by (auto simp: rising_bits_def bit_simps)

lemma bit_falling_bits: "bit (falling_bits m cur prev) i \<longleftrightarrow> bit m i \<and> \<not> bit cur i \<and> bit prev i"
  by (auto simp: falling_bits_def bit_simps)

lemma any_edge_iff: "any_edge m cur prev \<longleftrightarrow> (\<exists>i. bit m i \<and> bit cur i \<noteq> bit prev i)"
  by (auto simp: any_edge_def bit_eq_iff bit_rising_bits bit_falling_bits)

lemma edge_bits_zero [simp]: "rising_bits 0 cur prev = 0" "falling_bits 0 cur prev = 0"
  by (simp_all add: rising_bits_def falling_bits_def)

lemma analyze_sample_snd:
  "snd (analyze_sample sm ss vm vp cm cs n d last_d acc) =
     (if violation_at sm ss vm vp cm cs d last_d then snd acc @ [n] else snd acc)"
  by (auto simp: analyze_sample_def violation_at_def sample_point_def any_edge_def
      get_edges_rising get_edges_falling Let_def)

lemma code_valid_active:
  "(vp AND 1 \<noteq> 0 \<and> d AND vm = 0) \<or> (vp AND 2 \<noteq> 0 \<and> d AND vm \<noteq> 0) \<longleftrightarrow> valid_active vp vm d"
proof -
  have "vp AND 1 \<noteq> 0 \<longleftrightarrow> bit vp 0"
    using bit_iff_and_push_bit_not_eq_0 [of vp 0] by simp
  moreover have "vp AND 2 \<noteq> 0 \<longleftrightarrow> bit vp 1"
    using bit_iff_and_push_bit_not_eq_0 [of vp 1] by simp
  ultimately show ?thesis by (simp add: valid_active_def)
qed

lemma analyze_sample_fst:
  "fst (analyze_sample sm ss vm vp cm cs n d last_d acc) =
     (if sample_point ss sm d last_d \<and> valid_active vp vm d
      then fst acc @ [drop_bit cs d AND cm] else fst acc)"
  unfolding valid_active_def [symmetric] code_valid_active [symmetric]
  by (auto simp: analyze_sample_def sample_point_def any_edge_def
      get_edges_rising get_edges_falling Let_def)

lemma analyze_from_mem:
  "k \<in> set (snd (analyze_from sm ss vm vp cm cs n last_d ds acc)) \<longleftrightarrow>
     k \<in> set (snd acc) \<or>
     (n \<le> k \<and> k < n + length ds \<and>
      violation_at sm ss vm vp cm cs ((last_d # ds) ! (Suc (k - n))) ((last_d # ds) ! (k - n)))"
proof (induction ds arbitrary: n last_d acc)
  case Nil
  then show ?case by auto
next
  case (Cons d ds)
  have idx: "\<And>j. Suc n \<le> j \<Longrightarrow> j - n = Suc (j - Suc n)" by arith
  show ?case
    apply (simp only: analyze_from.simps Cons.IH analyze_sample_snd)
    apply (cases "k = n")
     apply (auto simp: idx)
    done
qed

lemma analyze_from_sorted:
  "sorted_wrt (<) (snd acc) \<Longrightarrow> \<forall>x\<in>set (snd acc). x < n \<Longrightarrow>
   sorted_wrt (<) (snd (analyze_from sm ss vm vp cm cs n last_d ds acc))"
proof (induction ds arbitrary: n last_d acc)
  case Nil
  then show ?case by simp
next
  case (Cons d ds)
  show ?case
    apply (simp only: analyze_from.simps)
    apply (rule Cons.IH)
    using Cons.prems
     apply (auto simp: analyze_sample_snd sorted_wrt_append less_Suc_eq)
    done
qed

lemma analyze_from_snoc:
  "analyze_from sm ss vm vp cm cs n last_d (ds @ [d]) acc =
     analyze_sample sm ss vm vp cm cs (n + length ds) d (last (last_d # ds))
       (analyze_from sm ss vm vp cm cs n last_d ds acc)"
  by (induction ds arbitrary: n last_d acc) auto

lemma analyze_dio_data_snoc:
  "xs \<noteq> [] \<Longrightarrow>
   analyze_dio_data (xs @ [d]) sm ss vm vp cm cs =
     analyze_sample sm ss vm vp cm cs (length xs) d (last xs)
       (analyze_dio_data xs sm ss vm vp cm cs)"
  by (cases xs) (simp_all add: analyze_dio_data_def analyze_from_snoc)

lemma decode_roundtrip:
  fixes c :: int
  assumes "c AND cm = c" and "other AND push_bit cs cm = 0"
  shows "drop_bit cs (push_bit cs c OR other) AND cm = c"
proof (rule bit_eqI)
  fix n
  have a: "bit c n \<Longrightarrow> bit cm n"
    using assms(1) by (metis bit_and_iff)
  have b: "\<not> (bit other (cs + n) \<and> bit cm n)"
  proof
    assume "bit other (cs + n) \<and> bit cm n"
    then have "bit (other AND push_bit cs cm) (cs + n)"
      by (simp add: bit_simps)
    with assms(2) show False by simp
  qed
  show "bit (drop_bit cs (push_bit cs c OR other) AND cm) n = bit c n"
    using a b by (auto simp: bit_simps)
qed

text \<open>
  C3, as the code has it. A position \<open>n\<close> is in the list of timing violations exactly
  when it is a position after the first, a sample point occurs there, and at the same
  position either the valid bits have an edge and the valid polarity is not 0, or the
  codeword bits have an edge. Edges of the valid bits are not looked at when the
  polarity is 0; a codeword mask of 0 needs no special case.
\<close>

theorem violation_recorded_iff:
  "n \<in> set (snd (analyze_dio_data data sm ss vm vp cm cs)) \<longleftrightarrow>
     0 < n \<and> n < length data \<and>
     sample_point ss sm (data ! n) (data ! (n - 1)) \<and>
     ((vp \<noteq> 0 \<and> any_edge vm (data ! n) (data ! (n - 1))) \<or>
      any_edge (push_bit cs cm) (data ! n) (data ! (n - 1)))"
proof (cases data)
  case Nil
  then show ?thesis by (simp add: analyze_dio_data_def)
next
  case (Cons d0 ds)
  have "0 < n \<Longrightarrow> Suc (n - 1) = n" by simp
  then show ?thesis
    by (auto simp: Cons analyze_dio_data_def analyze_from_mem violation_at_def)
qed

theorem violation_recorded_iff_witness:
  "1 \<in> set (snd (analyze_dio_data [32, 51] 16 1 32 2 3 0)) \<and>
   (0::nat) < 1 \<and> 1 < length [32, 51 :: int] \<and>
   sample_point 1 16 ([32, 51] ! 1) ([32, 51] ! (1 - 1)) \<and>
   (2 \<noteq> (0::int) \<and> \<not> any_edge 32 ([32, 51] ! 1) ([32, 51] ! (1 - 1))) \<and>
   any_edge (push_bit 0 3) ([32, 51] ! 1) ([32, 51] ! (1 - 1))"
  using violation_recorded_iff [of 1 "[32, 51]" 16 1 32 2 3 0]
  by (simp add: sample_point_def any_edge_def rising_bits_def falling_bits_def)

text \<open>
  C3, as the specification states it, fails when the valid polarity is 0: with the
  strobe on bit 4 sampled on its rising edge, the valid bit on bit 5 and the codeword
  on bits 0 and 1, the trace \<open>[0, 48]\<close> has a sample point at position 1 where the
  valid bit changes, and the analysis records no violation.
\<close>

theorem violation_polarity_counterexample:
  "sample_point 1 16 ([0, 48] ! 1) ([0, 48] ! 0) \<and> any_edge 32 ([0, 48] ! 1) ([0, 48] ! 0) \<and>
   1 \<notin> set (snd (analyze_dio_data [0, 48] 16 1 32 0 3 0))"
  by (simp add: sample_point_def any_edge_def rising_bits_def falling_bits_def
      analyze_dio_data_def analyze_sample_def get_edges_def)

text \<open>
  C9. The list of timing violations is strictly increasing, has no position twice,
  and every position in it lies between 1 and \<open>length data - 1\<close>.
\<close>

theorem violations_strictly_increasing:
  "sorted_wrt (<) (snd (analyze_dio_data data sm ss vm vp cm cs)) \<and>
   distinct (snd (analyze_dio_data data sm ss vm vp cm cs)) \<and>
   (\<forall>n \<in> set (snd (analyze_dio_data data sm ss vm vp cm cs)). 1 \<le> n \<and> n \<le> length data - 1)"
proof -
  let ?tv = "snd (analyze_dio_data data sm ss vm vp cm cs)"
  have s: "sorted_wrt (<) ?tv"
    by (cases data) (simp_all add: analyze_dio_data_def analyze_from_sorted)
  have d: "distinct ?tv"
    using s strict_sorted_iff by blast
  have r: "\<forall>n \<in> set ?tv. 1 \<le> n \<and> n \<le> length data - 1"
    by (cases data) (auto simp: analyze_dio_data_def analyze_from_mem)
  from s d r show ?thesis by blast
qed

theorem violations_strictly_increasing_witness:
  "snd (analyze_dio_data [0, 51, 0, 51] 16 3 32 2 3 0) = [1, 2, 3] \<and>
   sorted_wrt (<) (snd (analyze_dio_data [0, 51, 0, 51] 16 3 32 2 3 0)) \<and>
   distinct (snd (analyze_dio_data [0, 51, 0, 51] 16 3 32 2 3 0)) \<and>
   3 \<le> length [0, 51, 0, 51 :: int] - 1"
proof -
  have "snd (analyze_dio_data [0, 51, 0, 51] 16 3 32 2 3 0) = [1, 2, 3]"
    by (simp add: analyze_dio_data_def analyze_sample_def get_edges_def)
  with violations_strictly_increasing [of "[0, 51, 0, 51]" 16 3 32 2 3 0]
  show ?thesis by simp
qed

text \<open>
  C8. Let the last sample \<open>d\<close> of a trace carry the codeword \<open>c\<close>, with \<open>c\<close> inside the
  codeword mask, as \<open>(c << shift) | other\<close>, where \<open>other\<close> has no bit inside the shifted
  mask. If \<open>d\<close> is a sample point, valid-active holds and no timing violation is
  recorded for it, the analysis appends exactly \<open>c\<close> to the codewords.
\<close>

theorem codeword_roundtrip:
  assumes "c AND cm = c"
    and "other AND push_bit cs cm = 0"
    and "d = push_bit cs c OR other"
    and "xs \<noteq> []"
    and "sample_point ss sm d (last xs)"
    and "valid_active vp vm d"
    and "length xs \<notin> set (snd (analyze_dio_data (xs @ [d]) sm ss vm vp cm cs))"
  shows "fst (analyze_dio_data (xs @ [d]) sm ss vm vp cm cs) =
         fst (analyze_dio_data xs sm ss vm vp cm cs) @ [c]"
proof -
  have "drop_bit cs d AND cm = c"
    unfolding assms(3) using assms(1,2) by (rule decode_roundtrip)
  with assms(4,5,6) show ?thesis
    by (simp only: analyze_dio_data_snoc analyze_sample_fst simp_thms if_True)
qed

theorem codeword_roundtrip_witness:
  "(5::int) AND 7 = 5 \<and> (48::int) AND push_bit 1 7 = 0 \<and> (58::int) = push_bit 1 5 OR 48 \<and>
   [42 :: int] \<noteq> [] \<and> sample_point 3 16 58 (last [42]) \<and> valid_active 2 32 58 \<and>
   length [42 :: int] \<notin> set (snd (analyze_dio_data ([42] @ [58]) 16 3 32 2 7 1)) \<and>
   fst (analyze_dio_data ([42] @ [58]) 16 3 32 2 7 1) =
     fst (analyze_dio_data [42] 16 3 32 2 7 1) @ [5]"
proof -
  have h1: "(5::int) AND 7 = 5" by simp
  have h2: "(48::int) AND push_bit 1 7 = 0" by simp
  have h3: "(58::int) = push_bit 1 5 OR 48" by simp
  have h4: "[42 :: int] \<noteq> []" by simp
  have h5: "sample_point 3 16 58 (last [42])"
    by (simp add: sample_point_def any_edge_def rising_bits_def falling_bits_def)
  have h6: "valid_active 2 32 58" by (simp add: valid_active_def)
  have h7: "length [42 :: int] \<notin> set (snd (analyze_dio_data ([42] @ [58]) 16 3 32 2 7 1))"
    by (simp add: analyze_dio_data_def analyze_sample_def get_edges_def)
  from codeword_roundtrip [OF h1 h2 h3 h4 h5 h6 h7] h1 h2 h3 h4 h5 h6 h7
  show ?thesis by blast
qed

section \<open>The strobe symmetry check\<close>

lemma step_init: "strb_step strb_init x = Some (idle x)"
  by (simp add: strb_step_def strb_init_def idle_def)

lemma step_idle_same: "strb_step (idle v) v = Some (idle v)"
  by (simp add: strb_step_def idle_def)

lemma step_idle_diff: "x \<noteq> v \<Longrightarrow> strb_step (idle v) x = Some (counting x 0 0)"
  by (auto simp: strb_step_def idle_def counting_def)

lemma step_counting_same: "strb_step (counting v c p) v = Some (counting v (Suc c) p)"
  by (auto simp: strb_step_def counting_def)

lemma step_counting_diff:
  "x \<noteq> v \<Longrightarrow> p = 0 \<or> p = c \<Longrightarrow> strb_step (counting v c p) x = Some (counting x 0 c)"
  by (auto simp: strb_step_def counting_def)

lemma step_counting_fail:
  "x \<noteq> v \<Longrightarrow> p > 0 \<Longrightarrow> p \<noteq> c \<Longrightarrow> strb_step (counting v c p) x = None"
  by (auto simp: strb_step_def counting_def)

lemma runs_nonempty [simp]: "runs (x # xs) \<noteq> []"
  by (cases xs) auto

lemma runs_replicate_diff:
  "x \<noteq> v \<Longrightarrow> runs (replicate (Suc c) v @ x # rest) = (v, Suc c) # runs (x # rest)"
  by (induction c) auto

lemma equal_high_low_mono: "equal_high_low ys \<Longrightarrow> set xs \<subseteq> set ys \<Longrightarrow> equal_high_low xs"
  by (auto simp: equal_high_low_def)

lemma equal_high_low_opposite:
  "equal_high_low rs \<Longrightarrow> (v, a) \<in> set rs \<Longrightarrow> (\<not> v, b) \<in> set rs \<Longrightarrow> a = b"
  by (cases v) (force simp: equal_high_low_def)+

lemma scan_counting:
  "equal_high_low ((if p > 0 then [(\<not> v, Suc p)] else []) @
       butlast (runs (replicate (Suc c) v @ map (\<lambda>d. d AND m \<noteq> 0) data))) \<Longrightarrow>
   strb_scan m (counting v c p) data"
proof (induction data arbitrary: v c p)
  case Nil
  then show ?case by simp
next
  case (Cons d ds)
  let ?x = "d AND m \<noteq> 0"
  let ?rest = "map (\<lambda>d. d AND m \<noteq> 0) ds"
  show ?case
  proof (cases "?x = v")
    case True
    have eq: "replicate (Suc c) v @ map (\<lambda>d. d AND m \<noteq> 0) (d # ds) = replicate (Suc (Suc c)) v @ ?rest"
      using True by (simp add: replicate_app_Cons_same)
    have "strb_scan m (counting v (Suc c) p) ds"
      by (rule Cons.IH) (use Cons.prems in \<open>simp only: eq\<close>)
    with True show ?thesis by (simp add: step_counting_same)
  next
    case False
    have r: "runs (replicate (Suc c) v @ map (\<lambda>d. d AND m \<noteq> 0) (d # ds)) = (v, Suc c) # runs (?x # ?rest)"
      using False runs_replicate_diff [of ?x v c ?rest] by simp
    let ?T = "(if p > 0 then [(\<not> v, Suc p)] else []) @ (v, Suc c) # butlast (runs (?x # ?rest))"
    have T: "equal_high_low ?T"
      using Cons.prems [unfolded r] by simp
    have pc: "p = 0 \<or> p = c"
    proof (cases "p > 0")
      case True
      have "(v, Suc c) \<in> set ?T" "(\<not> v, Suc p) \<in> set ?T" using True by auto
      with T have "Suc c = Suc p" by (rule equal_high_low_opposite)
      then show ?thesis by simp
    qed simp
    have xv: "?x = (\<not> v)" using False by auto
    have "equal_high_low ((if c > 0 then [(\<not> ?x, Suc c)] else []) @
        butlast (runs (replicate (Suc 0) ?x @ ?rest)))"
      by (rule equal_high_low_mono [OF T]) (auto simp: xv)
    then have "strb_scan m (counting ?x 0 c) ds"
      by (rule Cons.IH)
    with False pc show ?thesis by (simp add: step_counting_diff)
  qed
qed

lemma scan_idle:
  "equal_high_low (butlast (tl (runs (v # map (\<lambda>d. d AND m \<noteq> 0) data)))) \<Longrightarrow>
   strb_scan m (idle v) data"
proof (induction data)
  case Nil
  then show ?case by simp
next
  case (Cons d ds)
  let ?x = "d AND m \<noteq> 0"
  show ?case
  proof (cases "?x = v")
    case True
    with Cons show ?thesis by (simp add: step_idle_same)
  next
    case False
    with Cons.prems have "strb_scan m (counting ?x 0 0) ds"
      by (intro scan_counting) simp
    with False show ?thesis by (simp add: step_idle_diff)
  qed
qed

lemma scan_init:
  "equal_high_low (butlast (tl (runs (map (\<lambda>d. d AND m \<noteq> 0) data)))) \<Longrightarrow>
   strb_scan m strb_init data"
  by (cases data) (simp_all add: step_init scan_idle)

lemma scan_closed_runs:
  assumes "equal_high_low (closed_runs data b)"
  shows "strb_scan (push_bit b 1) strb_init data"
proof -
  have "strobe_levels data b = map (\<lambda>d. d AND push_bit b 1 \<noteq> 0) data"
    by (simp add: strobe_levels_def bit_iff_and_push_bit_not_eq_0)
  with assms have "equal_high_low (butlast (tl (runs (map (\<lambda>d. d AND push_bit b 1 \<noteq> 0) data))))"
    by (simp only: closed_runs_def)
  then show ?thesis by (rule scan_init)
qed

lemma is_dio_strb_symmetric_iff:
  "is_dio_strb_symmetric data bits \<longleftrightarrow> (\<forall>b \<in> set bits. strb_scan (push_bit b 1) strb_init data)"
  by (induction bits) auto

lemma runs_replicate: "runs (x # replicate n x) = [(x, Suc n)]"
  by (induction n) auto

lemma closed_runs_constant:
  "\<forall>d \<in> set data. bit d b = v \<Longrightarrow> closed_runs data b = []"
proof -
  assume a: "\<forall>d \<in> set data. bit d b = v"
  have "strobe_levels data b = replicate (length data) v"
    unfolding strobe_levels_def using a by (induction data) auto
  then show ?thesis
    by (cases "length data") (simp_all add: closed_runs_def runs_replicate)
qed

text \<open>
  C10. \<open>is_dio_strb_symmetric\<close> returns true for every trace in which, on each strobe
  bit, no closed high run and closed low run have different numbers of samples. In
  particular it returns true on the empty trace, on a trace of one sample, on a
  constant trace, and on a trace in which none of the strobe lines ever toggles: a dead
  strobe line counts as symmetric.
\<close>

theorem symmetric_ok:
  "((\<forall>b \<in> set bits. equal_high_low (closed_runs data b)) \<longrightarrow> is_dio_strb_symmetric data bits) \<and>
   is_dio_strb_symmetric [] bits \<and>
   is_dio_strb_symmetric [d] bits \<and>
   is_dio_strb_symmetric (replicate n d) bits \<and>
   ((\<forall>b \<in> set bits. \<forall>x \<in> set data. bit x b = bit (hd data) b) \<longrightarrow>
      is_dio_strb_symmetric data bits)"
proof -
  have g: "is_dio_strb_symmetric xs bits" if "\<forall>b \<in> set bits. equal_high_low (closed_runs xs b)" for xs
    unfolding is_dio_strb_symmetric_iff using that scan_closed_runs by blast
  have c: "is_dio_strb_symmetric xs bits"
    if "\<forall>b \<in> set bits. \<forall>x \<in> set xs. bit x b = bit (hd xs) b" for xs
  proof (rule g, rule ballI)
    fix b assume "b \<in> set bits"
    with that have "closed_runs xs b = []" by (intro closed_runs_constant) blast
    then show "equal_high_low (closed_runs xs b)" by (simp add: equal_high_low_def)
  qed
  have "is_dio_strb_symmetric [] bits" by (rule c) simp
  moreover have "is_dio_strb_symmetric [d] bits" by (rule c) simp
  moreover have "is_dio_strb_symmetric (replicate n d) bits" by (rule c) (cases n; simp)
  ultimately show ?thesis using g c by blast
qed

theorem symmetric_ok_witness:
  "closed_runs [0, 16, 16, 0, 0, 16, 16, 0] 4 = [(True, 2), (False, 2), (True, 2)] \<and>
   equal_high_low (closed_runs [0, 16, 16, 0, 0, 16, 16, 0] 4) \<and>
   is_dio_strb_symmetric [0, 16, 16, 0, 0, 16, 16, 0] [4] \<and>
   is_dio_strb_symmetric [16, 17, 19] [4, 5]"
proof -
  have r: "closed_runs [0, 16, 16, 0, 0, 16, 16, 0] 4 = [(True, 2), (False, 2), (True, 2)]"
    by (simp add: closed_runs_def strobe_levels_def)
  have e: "equal_high_low (closed_runs [0, 16, 16, 0, 0, 16, 16, 0] 4)"
    by (simp add: r equal_high_low_def)
  then have h1: "\<forall>b \<in> set [4]. equal_high_low (closed_runs [0, 16, 16, 0, 0, 16, 16, 0] b)"
    by simp
  have h2: "\<forall>b \<in> set [4, 5]. \<forall>x \<in> set [16, 17, 19 :: int]. bit x b = bit (hd [16, 17, 19 :: int]) b"
    by simp
  from r e h1 h2 symmetric_ok [of "[4]" "[0, 16, 16, 0, 0, 16, 16, 0]"]
    symmetric_ok [of "[4, 5]" "[16, 17, 19]"]
  show ?thesis by blast
qed

section \<open>The delay configuration\<close>

lemma fold_keeps: "(\<And>x s. g (f x s) = g s) \<Longrightarrow> g (fold f xs s) = g s"
  by (induction xs arbitrary: s) auto

lemma delay_step_eq:
  "delay_step awg sm dm sd dd i d =
     d\<lparr>dio_delay_index := (dio_delay_index d)(awg := i),
       dio_delay_value := (dio_delay_value d)(awg := (dio_delay_value d awg)(i := bit_delay sm dm sd dd i))\<rparr>"
  by (simp add: delay_step_def seti_delay_index_def seti_delay_value_def bit_delay_def
      bit_iff_and_push_bit_not_eq_0 Let_def)

lemma set_dio_delay_fold:
  "set_dio_delay awg sm dm delay dev =
     fold (delay_step awg sm dm (max 0 (min delay 6 - 3)) (max 0 (3 - min delay 6))) [0..<32]
       (if delay > 6 then print_line ''WARNING: Clamping delay to 6''
          (if delay < 0 then print_line ''WARNING: Clamping delay to 0'' dev else dev)
        else if delay < 0 then print_line ''WARNING: Clamping delay to 0'' dev else dev)"
  unfolding set_dio_delay_def delay_step_def [abs_def] Let_def
  by (cases "delay > 6"; cases "delay < 0"; cases "delay > 3"; simp cong: if_cong)

lemma fold_delay_step_value:
  "dio_delay_value (fold (delay_step awg sm dm sd dd) [0..<n] dev) a i =
     (if a = awg \<and> i < n then bit_delay sm dm sd dd i else dio_delay_value dev a i)"
  by (induction n) (auto simp: delay_step_eq)

lemma set_dio_delay_value:
  "dio_delay_value (set_dio_delay awg sm dm delay dev) a i =
     (if a = awg \<and> i < 32
      then bit_delay sm dm (max 0 (min delay 6 - 3)) (max 0 (3 - min delay 6)) i
      else dio_delay_value dev a i)"
  by (simp add: set_dio_delay_fold fold_delay_step_value print_line_def)

lemma set_dio_delay_keeps [simp]:
  "dio_strobe_index (set_dio_delay awg sm dm delay dev) = dio_strobe_index dev"
  "dio_strobe_slope (set_dio_delay awg sm dm delay dev) = dio_strobe_slope dev"
  "dio_valid_index (set_dio_delay awg sm dm delay dev) = dio_valid_index dev"
  "dio_valid_polarity (set_dio_delay awg sm dm delay dev) = dio_valid_polarity dev"
  "dio_mask_value (set_dio_delay awg sm dm delay dev) = dio_mask_value dev"
  "dio_mask_shift (set_dio_delay awg sm dm delay dev) = dio_mask_shift dev"
  "awg_enable (set_dio_delay awg sm dm delay dev) = awg_enable dev"
  "referenceclock_source (set_dio_delay awg sm dm delay dev) = referenceclock_source dev"
  "captures (set_dio_delay awg sm dm delay dev) = captures dev"
  "captured (set_dio_delay awg sm dm delay dev) = captured dev"
  unfolding set_dio_delay_fold
  by (subst fold_keeps; simp add: delay_step_eq print_line_def)+

lemma set_dio_delay_console:
  "console (set_dio_delay awg sm dm delay dev) =
     console dev @ (if delay < 0 then [''WARNING: Clamping delay to 0''] else []) @
       (if delay > 6 then [''WARNING: Clamping delay to 6''] else [])"
  unfolding set_dio_delay_fold
  by (subst fold_keeps; simp add: delay_step_eq print_line_def)

text \<open>
  C5. A delay outside the range is to be clamped, with a warning, before it is split
  and programmed. The code does so above the range and not below it. With the strobe
  on bit 4 and the data mask \<open>39\<close> (codeword bits 0 to 2 and the valid bit 5), a delay
  of \<open>-1\<close> prints the warning that announces the clamping to 0 and then programs the
  data bits with \<open>3 - (-1) = 4\<close>, where the delay 0 programs 3. A delay of 10 is
  clamped to 6 and programs what 6 programs.
\<close>

theorem set_dio_delay_negative:
  "dio_delay_value (set_dio_delay awg 16 39 (- 1) dev) awg 0 = 4 \<and>
   dio_delay_value (set_dio_delay awg 16 39 0 dev) awg 0 = 3 \<and>
   console (set_dio_delay awg 16 39 (- 1) dev) = console dev @ [''WARNING: Clamping delay to 0''] \<and>
   dio_delay_value (set_dio_delay awg 16 39 10 dev) awg 4 = 3 \<and>
   dio_delay_value (set_dio_delay awg 16 39 6 dev) awg 4 = 3"
  by (simp add: set_dio_delay_value set_dio_delay_console bit_delay_def)


section \<open>The delay search\<close>

subsection \<open>Comparison with the expected sequence\<close>

text \<open>\<open>index_of\<close> finds the first occurrence.\<close>

lemma index_of_first:
  "c \<in> set xs \<Longrightarrow>
   index_of xs c < length xs \<and> xs ! index_of xs c = c \<and> (\<forall>j < index_of xs c. xs ! j \<noteq> c)"
proof (induction xs)
  case Nil
  then show ?case by simp
next
  case (Cons x xs)
  show ?case
  proof (cases "x = c")
    case True
    then show ?thesis by simp
  next
    case False
    with Cons show ?thesis by (auto simp: less_Suc_eq_0_disj)
  qed
qed

lemma follow_sequence_iff:
  "follow_sequence e idx rest \<longleftrightarrow>
     (\<forall>k < length rest. rest ! k = e ! ((idx + 1 + k) mod length e))"
proof (induction rest arbitrary: idx)
  case Nil
  then show ?case by simp
next
  case (Cons c rest)
  have m: "((idx + 1) mod length e + 1 + k) mod length e = (idx + 1 + Suc k) mod length e" for k
    by (metis add.assoc add_Suc_right mod_add_left_eq plus_1_eq_Suc add.commute)
  show ?case
    by (simp add: Let_def Cons.IH m All_less_Suc2 del: One_nat_def) 
qed

lemma valid_sequence_cyclic: "valid_sequence e cws \<longleftrightarrow> cyclic_match e cws"
proof (cases cws)
  case Nil
  then show ?thesis by (simp add: valid_sequence_def cyclic_match_def)
next
  case (Cons c rest)
  show ?thesis
  proof (cases "c \<in> set e")
    case False
    with Cons show ?thesis by (simp add: valid_sequence_def cyclic_match_def)
  next
    case True
    then have i: "index_of e c < length e" "e ! index_of e c = c"
      using index_of_first by blast+
    have "(\<forall>k < Suc (length rest). (c # rest) ! k = e ! ((index_of e c + k) mod length e)) \<longleftrightarrow>
          (\<forall>k < length rest. rest ! k = e ! ((index_of e c + 1 + k) mod length e))"
      using i by (simp add: All_less_Suc2)
    with True Cons show ?thesis
      by (simp add: valid_sequence_def cyclic_match_def follow_sequence_iff)
  qed
qed

text \<open>
  C6. The comparison accepts a list of codewords exactly when the first codeword
  occurs in the expected sequence and, starting from the index of its first
  occurrence, every later codeword is the next entry of the expected sequence taken
  cyclically; a list without codewords has nothing to check and is accepted. Against
  \<open>[1, 2, 3]\<close> the list \<open>[2, 3, 1, 2, 3]\<close> is accepted and \<open>[2, 3, 2]\<close> is not.
\<close>

theorem valid_sequence_iff_cyclic:
  "(valid_sequence expected_sequence codewords \<longleftrightarrow> cyclic_match expected_sequence codewords) \<and>
   valid_sequence [1, 2, 3] [2, 3, 1, 2, 3] \<and> \<not> valid_sequence [1, 2, 3] [2, 3, 2]"
proof -
  have "valid_sequence [1, 2, 3] [2, 3, 1, 2, 3]" by (simp add: valid_sequence_def)
  moreover have "\<not> valid_sequence [1, 2, 3] [2, 3, 2]" by (simp add: valid_sequence_def)
  ultimately show ?thesis using valid_sequence_cyclic by blast
qed

theorem valid_sequence_iff_cyclic_witness:
  "valid_sequence [7, 5, 6] [5, 6, 7, 5] \<and> cyclic_match [7, 5, 6] [5, 6, 7, 5] \<and>
   \<not> valid_sequence [7, 5, 6] [5, 7] \<and> \<not> cyclic_match [7, 5, 6] [5, 7]"
proof -
  have a: "valid_sequence [7, 5, 6] [5, 6, 7, 5]" by (simp add: valid_sequence_def)
  have b: "\<not> valid_sequence [7, 5, 6] [5, 7]" by (simp add: valid_sequence_def)
  from a b valid_sequence_iff_cyclic [of "[7, 5, 6]" "[5, 6, 7, 5]"]
    valid_sequence_iff_cyclic [of "[7, 5, 6]" "[5, 7]"]
  show ?thesis by blast
qed

subsection \<open>The retry loop and one delay\<close>

lemma retry_capture_none:
  "cm = 0 \<or> fst r \<noteq> [] \<Longrightarrow> retry_capture sm ss vm vp cm cs cnt r dev = (r, dev)"
  by (subst retry_capture.simps) auto

lemma retry_capture_dev:
  "snd (retry_capture sm ss vm vp cm cs cnt r dev) =
     dev\<lparr>captured := captured (snd (retry_capture sm ss vm vp cm cs cnt r dev))\<rparr>"
proof (induction sm ss vm vp cm cs cnt r dev rule: retry_capture.induct)
  case (1 sm ss vm vp cm cs cnt r dev)
  show ?case
  proof (cases "cm \<noteq> 0 \<and> length (fst r) = 0 \<and> \<not> cnt > 5")
    case True
    then show ?thesis
      using "1" [of "captures dev (captured dev)" "dev\<lparr>captured := Suc (captured dev)\<rparr>"]
      by (subst (1 2) retry_capture.simps) (simp add: getv_def)
  next
    case False
    then show ?thesis by (subst (1 2) retry_capture.simps) auto
  qed
qed

lemma retry_capture_bounds:
  "captured dev \<le> captured (snd (retry_capture sm ss vm vp cm cs cnt r dev)) \<and>
   captured (snd (retry_capture sm ss vm vp cm cs cnt r dev)) \<le> captured dev + (6 - cnt)"
proof (induction sm ss vm vp cm cs cnt r dev rule: retry_capture.induct)
  case (1 sm ss vm vp cm cs cnt r dev)
  show ?case
  proof (cases "cm \<noteq> 0 \<and> length (fst r) = 0 \<and> \<not> cnt > 5")
    case True
    then show ?thesis
      using "1" [of "captures dev (captured dev)" "dev\<lparr>captured := Suc (captured dev)\<rparr>"]
      by (subst (1 2) retry_capture.simps) (auto simp: getv_def)
  next
    case False
    then show ?thesis by (subst (1 2) retry_capture.simps) auto
  qed
qed

lemma retry_capture_all_empty:
  "cm \<noteq> 0 \<Longrightarrow> fst r = [] \<Longrightarrow> cnt \<le> 6 \<Longrightarrow>
   \<forall>j < 6 - cnt. fst (analyze_dio_data (captures dev (captured dev + j)) sm ss vm vp cm cs) = [] \<Longrightarrow>
   fst (fst (retry_capture sm ss vm vp cm cs cnt r dev)) = [] \<and>
   captured (snd (retry_capture sm ss vm vp cm cs cnt r dev)) = captured dev + (6 - cnt)"
proof (induction sm ss vm vp cm cs cnt r dev rule: retry_capture.induct)
  case (1 sm ss vm vp cm cs cnt r dev)
  show ?case
  proof (cases "cnt > 5")
    case True
    with "1.prems" show ?thesis by (subst (1 2) retry_capture.simps) auto
  next
    case False
    let ?dev' = "dev\<lparr>captured := Suc (captured dev)\<rparr>"
    let ?r' = "analyze_dio_data (captures dev (captured dev)) sm ss vm vp cm cs"
    have e: "fst ?r' = []" using "1.prems"(4) False by (auto dest: spec [of _ 0])
    have a: "\<forall>j < 6 - (cnt + 1). fst (analyze_dio_data (captures ?dev' (captured ?dev' + j)) sm ss vm vp cm cs) = []"
    proof (intro allI impI)
      fix j assume "j < 6 - (cnt + 1)"
      then have "Suc j < 6 - cnt" by arith
      with "1.prems"(4) show "fst (analyze_dio_data (captures ?dev' (captured ?dev' + j)) sm ss vm vp cm cs) = []"
        by (auto dest: spec [of _ "Suc j"])
    qed
    have ih: "fst (fst (retry_capture sm ss vm vp cm cs (cnt + 1) ?r' ?dev')) = [] \<and>
      captured (snd (retry_capture sm ss vm vp cm cs (cnt + 1) ?r' ?dev')) = captured ?dev' + (6 - (cnt + 1))"
      using "1.prems"(1,2) False e a
      by (intro "1.IH" [of "captures dev (captured dev)" ?dev']) (auto simp: getv_def)
    show ?thesis
      using ih "1.prems"(1,2) False
      by (subst (1 2) retry_capture.simps) (auto simp: getv_def)
  qed
qed

lemma delay_body_first:
  assumes "cm = 0 \<or> fst (analyze_dio_data (captures (snd st) (captured (snd st))) sm ss vm vp cm cs) \<noteq> []"
  shows "delay_body awg e vm vp sm ss cm cs delay st =
     (let r = analyze_dio_data (captures (snd st) (captured (snd st))) sm ss vm vp cm cs
      in (if snd r = [] \<and> valid_sequence e (fst r) then fst st @ [delay] else fst st,
          (set_dio_delay awg sm (push_bit cs cm OR vm) delay (snd st))
            \<lparr>captured := Suc (captured (snd st))\<rparr>))"
  using assms by (auto simp: delay_body_def getv_def retry_capture_none Let_def)

lemma delay_body_captured:
  "captured (snd st) + 1 \<le> captured (snd (delay_body awg e vm vp sm ss cm cs delay st)) \<and>
   captured (snd (delay_body awg e vm vp sm ss cm cs delay st)) \<le> captured (snd st) + 7"
proof -
  let ?dev2 = "(set_dio_delay awg sm (push_bit cs cm OR vm) delay (snd st))\<lparr>captured := Suc (captured (snd st))\<rparr>"
  let ?r = "analyze_dio_data (captures (snd st) (captured (snd st))) sm ss vm vp cm cs"
  have "snd (delay_body awg e vm vp sm ss cm cs delay st) = snd (retry_capture sm ss vm vp cm cs 0 ?r ?dev2)"
    by (simp add: delay_body_def getv_def Let_def split_beta)
  then show ?thesis
    using retry_capture_bounds [of ?dev2 sm ss vm vp cm cs 0 ?r] by simp
qed

lemma delay_body_excluded:
  assumes "cm \<noteq> 0"
    and "\<forall>j < 7. fst (analyze_dio_data (captures (snd st) (captured (snd st) + j)) sm ss vm vp cm cs) = []"
  shows "fst (delay_body awg e vm vp sm ss cm cs delay st) = fst st \<and>
         captured (snd (delay_body awg e vm vp sm ss cm cs delay st)) = captured (snd st) + 7"
proof -
  let ?dev2 = "(set_dio_delay awg sm (push_bit cs cm OR vm) delay (snd st))\<lparr>captured := Suc (captured (snd st))\<rparr>"
  let ?r = "analyze_dio_data (captures (snd st) (captured (snd st))) sm ss vm vp cm cs"
  have r: "fst ?r = []" using assms(2) by (auto dest: spec [of _ 0])
  have a: "\<forall>j < 6 - 0. fst (analyze_dio_data (captures ?dev2 (captured ?dev2 + j)) sm ss vm vp cm cs) = []"
  proof (intro allI impI)
    fix j :: nat assume "j < 6 - 0"
    then have "Suc j < 7" by arith
    with assms(2) show "fst (analyze_dio_data (captures ?dev2 (captured ?dev2 + j)) sm ss vm vp cm cs) = []"
      by (auto dest: spec [of _ "Suc j"])
  qed
  have "fst (fst (retry_capture sm ss vm vp cm cs 0 ?r ?dev2)) = [] \<and>
        captured (snd (retry_capture sm ss vm vp cm cs 0 ?r ?dev2)) = captured ?dev2 + (6 - 0)"
    using assms(1) r a by (intro retry_capture_all_empty) auto
  then show ?thesis
    using assms(1) by (simp add: delay_body_def getv_def Let_def split_beta)
qed


subsection \<open>The search seen from the traces\<close>

lemma retry_capture_view:
  "retry_capture sm ss vm vp cm cs cnt r dev =
     (fst (retry_from (\<lambda>k. analyze_dio_data (captures dev k) sm ss vm vp cm cs) cm (6 - cnt)
             (captured dev) r),
      dev\<lparr>captured :=
            snd (retry_from (\<lambda>k. analyze_dio_data (captures dev k) sm ss vm vp cm cs) cm (6 - cnt)
                   (captured dev) r)\<rparr>)"
proof (induction sm ss vm vp cm cs cnt r dev rule: retry_capture.induct)
  case (1 sm ss vm vp cm cs cnt r dev)
  show ?case
  proof (cases "cm \<noteq> 0 \<and> length (fst r) = 0 \<and> \<not> cnt > 5")
    case True
    then have f: "6 - cnt = Suc (6 - (cnt + 1))" by arith
    show ?thesis
      using True "1" [of "captures dev (captured dev)" "dev\<lparr>captured := Suc (captured dev)\<rparr>"]
      by (subst retry_capture.simps, subst (1 2) f) (simp add: getv_def)
  next
    case False
    then show ?thesis
      by (subst retry_capture.simps) (cases "6 - cnt"; auto)
  qed
qed

lemma delay_body_view:
  "delay_body awg e vm vp sm ss cm cs delay st =
     (fst (try_delay (\<lambda>k. analyze_dio_data (captures (snd st) k) sm ss vm vp cm cs) e cm delay
             (fst st, captured (snd st))),
      (set_dio_delay awg sm (push_bit cs cm OR vm) delay (snd st))
        \<lparr>captured :=
           snd (try_delay (\<lambda>k. analyze_dio_data (captures (snd st) k) sm ss vm vp cm cs) e cm delay
                  (fst st, captured (snd st)))\<rparr>)"
  by (simp add: delay_body_def try_delay_def getv_def retry_capture_view Let_def split_beta)

lemma fold_delay_body_view:
  "fst (fold (delay_body awg e vm vp sm ss cm cs) ds st) =
     fst (fold (try_delay (\<lambda>k. analyze_dio_data (captures (snd st) k) sm ss vm vp cm cs) e cm) ds
            (fst st, captured (snd st))) \<and>
   captured (snd (fold (delay_body awg e vm vp sm ss cm cs) ds st)) =
     snd (fold (try_delay (\<lambda>k. analyze_dio_data (captures (snd st) k) sm ss vm vp cm cs) e cm) ds
            (fst st, captured (snd st))) \<and>
   same_setup (snd st) (snd (fold (delay_body awg e vm vp sm ss cm cs) ds st))"
proof (induction ds arbitrary: st)
  case Nil
  then show ?case by (simp add: same_setup_def)
next
  case (Cons d ds)
  let ?st' = "delay_body awg e vm vp sm ss cm cs d st"
  have c: "captures (snd ?st') = captures (snd st)"
    by (simp add: delay_body_view)
  have s: "same_setup (snd st) (snd ?st')"
    by (simp add: delay_body_view same_setup_def)
  have t: "(fst ?st', captured (snd ?st')) =
      try_delay (\<lambda>k. analyze_dio_data (captures (snd st) k) sm ss vm vp cm cs) e cm d
        (fst st, captured (snd st))"
    by (simp add: delay_body_view)
  show ?case
    using Cons.IH [of ?st'] s unfolding c t
    by (simp add: same_setup_def)
qed

lemma find_valid_delays_view:
  "fst (find_valid_delays awg e dev) =
     set (fst (fold (try_delay (decode dev awg) e (dio_mask_value dev awg)) [0..6] ([], captured dev)))"
  "captured (snd (find_valid_delays awg e dev)) =
     snd (fold (try_delay (decode dev awg) e (dio_mask_value dev awg)) [0..6] ([], captured dev))"
  "same_setup dev (snd (find_valid_delays awg e dev))"
  using fold_delay_body_view [of awg e "push_bit (dio_valid_index dev awg) 1"
      "dio_valid_polarity dev awg" "push_bit (dio_strobe_index dev awg) 1" "dio_strobe_slope dev awg"
      "dio_mask_value dev awg" "dio_mask_shift dev awg" "[0..6]" "([], dev)"]
  by (simp_all add: find_valid_delays_def decode_def [abs_def] Let_def split_beta)

text \<open>Rules for running the search on given traces.\<close>

lemma upto_0_6: "[0..6] = [0, 1, 2, 3, 4, 5, 6 :: int]"
  by (simp add: upto.simps)

lemma retry_from_numeral:
  "retry_from dec cm (numeral n) c r =
     (if cm \<noteq> 0 \<and> fst r = [] then retry_from dec cm (pred_numeral n) (Suc c) (dec c) else (r, c))"
  by (simp add: numeral_eq_Suc)

lemma try_delay_pair:
  "try_delay dec e cm delay (vds, c) =
     (case retry_from dec cm 6 (Suc c) (dec c) of
        (r, c') \<Rightarrow>
          (if cm \<noteq> 0 \<and> fst r = [] then vds
           else if snd r \<noteq> [] then vds
           else if valid_sequence e (fst r) then vds @ [delay]
           else vds, c'))"
  by (simp add: try_delay_def Let_def split_beta)

lemma bench_simps [simp]:
  "captured (bench caps) = 0" "dio_mask_value (bench caps) a = 7"
  by (simp_all add: bench_def)

lemma decode_late:
  "decode (bench late_codeword) 0 k = (if k = 6 then ([1], []) else ([], []))"
  by (simp add: decode_def bench_def late_codeword_def analyze_dio_data_def analyze_sample_def
      get_edges_def)


text \<open>
  C7, as the code has it. For a delay tested with a codeword mask other than 0, at most
  seven traces are taken: the first one and at most six more, one for each pass of the
  retry loop. When the first trace shows codewords no further trace is taken. When none of
  the seven traces shows a codeword, the delay is left out of the valid delays and the
  loop goes on with the delays that remain.
\<close>

theorem retry_then_excluded:
  assumes "cw_mask \<noteq> 0"
  shows "captured (snd (delay_body awg e vm vp sm ss cw_mask cs delay (vds, dev))) \<le> captured dev + 7 \<and>
     (fst (analyze_dio_data (captures dev (captured dev)) sm ss vm vp cw_mask cs) \<noteq> [] \<longrightarrow>
        captured (snd (delay_body awg e vm vp sm ss cw_mask cs delay (vds, dev))) = captured dev + 1) \<and>
     ((\<forall>j < 7. fst (analyze_dio_data (captures dev (captured dev + j)) sm ss vm vp cw_mask cs) = []) \<longrightarrow>
        fst (delay_body awg e vm vp sm ss cw_mask cs delay (vds, dev)) = vds \<and>
        captured (snd (delay_body awg e vm vp sm ss cw_mask cs delay (vds, dev))) = captured dev + 7 \<and>
        fold (delay_body awg e vm vp sm ss cw_mask cs) (delay # rest) (vds, dev) =
          fold (delay_body awg e vm vp sm ss cw_mask cs) rest
            (vds, snd (delay_body awg e vm vp sm ss cw_mask cs delay (vds, dev))))"
proof -
  let ?b = "delay_body awg e vm vp sm ss cw_mask cs delay (vds, dev)"
  have 1: "captured (snd ?b) \<le> captured dev + 7"
    using delay_body_captured [of "(vds, dev)" awg e vm vp sm ss cw_mask cs delay] by simp
  have 2: "captured (snd ?b) = captured dev + 1"
    if "fst (analyze_dio_data (captures dev (captured dev)) sm ss vm vp cw_mask cs) \<noteq> []"
    using that by (simp add: delay_body_first Let_def)
  have 3: "fst ?b = vds \<and> captured (snd ?b) = captured dev + 7"
    if "\<forall>j < 7. fst (analyze_dio_data (captures dev (captured dev + j)) sm ss vm vp cw_mask cs) = []"
    using delay_body_excluded [of cw_mask "(vds, dev)" sm ss vm vp cs awg e delay] assms that by simp
  have 4: "fold (delay_body awg e vm vp sm ss cw_mask cs) (delay # rest) (vds, dev) =
          fold (delay_body awg e vm vp sm ss cw_mask cs) rest (vds, snd ?b)"
    if "fst ?b = vds"
  proof -
    have e: "?b = (vds, snd ?b)" using that by (simp add: prod_eq_iff)
    have "fold (delay_body awg e vm vp sm ss cw_mask cs) (delay # rest) (vds, dev) =
          fold (delay_body awg e vm vp sm ss cw_mask cs) rest ?b"
      by simp
    also have "\<dots> = fold (delay_body awg e vm vp sm ss cw_mask cs) rest (vds, snd ?b)"
      using e by (rule arg_cong)
    finally show ?thesis .
  qed
  from 1 2 3 4 show ?thesis by blast
qed



theorem retry_then_excluded_witness:
  "(7::int) \<noteq> 0 \<and>
   captured (snd (delay_body 0 [1] 32 2 16 3 7 0 1 ([0], (bench late_codeword)\<lparr>captured := 7\<rparr>))) = 14 \<and>
   fst (delay_body 0 [1] 32 2 16 3 7 0 1 ([0], (bench late_codeword)\<lparr>captured := 7\<rparr>)) = [0] \<and>
   captured (snd (delay_body 0 [1] 32 2 16 3 7 0 0 ([], (bench late_codeword)\<lparr>captured := 6\<rparr>))) = 7"
proof -
  have h: "(7::int) \<noteq> 0" by simp
  let ?d7 = "(bench late_codeword)\<lparr>captured := 7\<rparr>"
  let ?d6 = "(bench late_codeword)\<lparr>captured := 6\<rparr>"
  have a: "\<forall>j < 7. fst (analyze_dio_data (captures ?d7 (captured ?d7 + j)) 16 3 32 2 7 0) = []"
    by (simp add: bench_def late_codeword_def analyze_dio_data_def)
  have b: "fst (analyze_dio_data (captures ?d6 (captured ?d6)) 16 3 32 2 7 0) \<noteq> []"
    by (simp add: bench_def late_codeword_def analyze_dio_data_def analyze_sample_def get_edges_def)
  from retry_then_excluded [OF h, of 0 "[1]" 32 2 16 3 0 1 "[0]" ?d7 "[]"] a
    retry_then_excluded [OF h, of 0 "[1]" 32 2 16 3 0 0 "[]" ?d6 "[]"] b h
  show ?thesis by (simp add: bench_def)
qed

text \<open>
  C7, as the specification states it, fails on the number of retries. On this
  instrument the first trace and the five that follow show no codeword; a sixth retry
  takes the trace that does, and the delay 0 is valid.
\<close>

theorem retry_sixth_counterexample:
  "map (decode (bench late_codeword) 0) [0..<6] = replicate 6 ([], []) \<and>
   fst (find_valid_delays 0 [1] (bench late_codeword)) = {0}"
proof -
  have "map (decode (bench late_codeword) 0) [0..<6] = replicate 6 ([], [])"
    by (simp add: decode_late upt_rec numeral_eq_Suc)
  moreover have "fst (find_valid_delays 0 [1] (bench late_codeword)) = {0}"
    by (simp add: find_valid_delays_view upto_0_6 try_delay_pair decode_late retry_from_numeral
        valid_sequence_def)
  ultimately show ?thesis by blast
qed

section \<open>The strobe recovery loop\<close>

text \<open>
  A pass through the resynchronisation leaves the enable state of the AWGs as it was
  and the reference clock on external.
\<close>

lemma resync_clock_eq: "resync_clock dev = dev\<lparr>referenceclock_source := 1\<rparr>"
proof -
  have u: "[0..<4] = [0, 1, 2, 3]" by (simp add: upt_rec)
  have f: "(awg_enable dev)(0 := awg_enable dev 0, Suc 0 := awg_enable dev (Suc 0),
             2 := awg_enable dev 2, 3 := awg_enable dev 3) = awg_enable dev"
    by (simp add: fun_eq_iff)
  show ?thesis
    by (simp add: resync_clock_def u seti_enable_def f)
qed

lemma after_captures_0: "after_captures dev 0 = dev"
  by (simp add: after_captures_def)

lemma getv_after:
  "getv (after_captures dev k) =
     (captures dev (captured dev + k), (after_captures dev k)\<lparr>captured := Suc (captured dev + k)\<rparr>)"
  by (simp add: getv_def after_captures_def)

lemma after_captures_good:
  "capture_symmetric dev k \<Longrightarrow>
   (after_captures dev k)\<lparr>captured := Suc (captured dev + k)\<rparr> = after_captures dev (Suc k)"
  by (simp add: after_captures_def)

lemma after_captures_bad:
  "\<not> capture_symmetric dev k \<Longrightarrow>
   resync_clock ((after_captures dev k)\<lparr>captured := Suc (captured dev + k)\<rparr>) = after_captures dev (Suc k)"
  by (simp add: after_captures_def resync_clock_eq)

lemma streak_le: "streak out v k \<le> k"
  by (induction k) auto

lemma streak_other: "streak out v (Suc k) > 0 \<Longrightarrow> streak out (\<not> v) (Suc k) = 0"
  by (auto split: if_splits)

lemma strobe_loop_step:
  "strobe_loop bits (streak (capture_symmetric dev) True k) (streak (capture_symmetric dev) False k)
     (after_captures dev k) =
   (if 5 < streak (capture_symmetric dev) True (Suc k) \<or> 5 < streak (capture_symmetric dev) False (Suc k)
    then Some (streak (capture_symmetric dev) True (Suc k), streak (capture_symmetric dev) False (Suc k),
               after_captures dev (Suc k))
    else strobe_loop bits (streak (capture_symmetric dev) True (Suc k))
           (streak (capture_symmetric dev) False (Suc k)) (after_captures dev (Suc k)))"
  if "bits = strobe_bits dev"
proof (cases "capture_symmetric dev k")
  case True
  then have d: "is_dio_strb_symmetric (captures dev (captured dev + k)) bits"
    using that by (simp add: capture_symmetric_def)
  show ?thesis
    by (subst strobe_loop.simps) (simp add: getv_after d True after_captures_good)
next
  case False
  then have d: "\<not> is_dio_strb_symmetric (captures dev (captured dev + k)) bits"
    using that by (simp add: capture_symmetric_def)
  show ?thesis
    by (subst strobe_loop.simps) (simp add: getv_after d False after_captures_bad Let_def)
qed

lemma strobe_loop_ends:
  assumes "bits = strobe_bits dev"
    and "k < K"
    and "streak (capture_symmetric dev) True K = 6 \<or> streak (capture_symmetric dev) False K = 6"
    and "\<forall>j < K. streak (capture_symmetric dev) True j < 6 \<and> streak (capture_symmetric dev) False j < 6"
  shows "strobe_loop bits (streak (capture_symmetric dev) True k) (streak (capture_symmetric dev) False k)
           (after_captures dev k) =
         Some (streak (capture_symmetric dev) True K, streak (capture_symmetric dev) False K,
               after_captures dev K)"
  using assms(2)
proof (induction rule: strict_inc_induct)
  case (base i)
  with assms(3) show ?case
    by (subst strobe_loop_step [OF assms(1)]) auto
next
  case (step i)
  then have "Suc i < K" by simp
  with assms(4) have "\<not> (5 < streak (capture_symmetric dev) True (Suc i) \<or>
                        5 < streak (capture_symmetric dev) False (Suc i))"
    by (auto simp: not_less dest!: spec [of _ "Suc i"])
  with step.IH show ?case
    by (subst strobe_loop_step [OF assms(1)]) simp
qed

lemma strobe_loop_never:
  assumes bits: "bits = strobe_bits dev"
    and never: "\<forall>K. streak (capture_symmetric dev) True K < 6 \<and> streak (capture_symmetric dev) False K < 6"
  shows "strobe_loop bits (streak (capture_symmetric dev) True k) (streak (capture_symmetric dev) False k)
           (after_captures dev k) = None"
proof -
  let ?T = "streak (capture_symmetric dev) True" and ?F = "streak (capture_symmetric dev) False"
  have "\<forall>k. b = bits \<and> g = ?T k \<and> bd = ?F k \<and> d = after_captures dev k \<longrightarrow> False"
    if s: "strobe_loop b g bd d = Some y" for b g bd d y
  proof (rule strobe_loop.raw_induct [OF _ s])
    fix f b g bd d y
    assume IH: "\<And>b g bd d y. f b g bd d = Some y \<Longrightarrow>
        \<forall>k. b = bits \<and> g = ?T k \<and> bd = ?F k \<and> d = after_captures dev k \<longrightarrow> False"
      and body: "(case getv d of
          (data, dev1) \<Rightarrow>
            if is_dio_strb_symmetric data b
            then if 5 < g + 1 then Some (g + 1, 0, dev1) else f b (g + 1) 0 dev1
            else let dev2 = resync_clock dev1
                 in if 5 < bd + 1 then Some (0, bd + 1, dev2) else f b 0 (bd + 1) dev2) = Some y"
    show "\<forall>k. b = bits \<and> g = ?T k \<and> bd = ?F k \<and> d = after_captures dev k \<longrightarrow> False"
    proof (intro allI impI)
      fix k
      assume a: "b = bits \<and> g = ?T k \<and> bd = ?F k \<and> d = after_captures dev k"
      have lt: "\<not> 5 < ?T (Suc k)" "\<not> 5 < ?F (Suc k)"
        using never by (auto simp: not_less dest!: spec [of _ "Suc k"])
      have "f bits (?T (Suc k)) (?F (Suc k)) (after_captures dev (Suc k)) = Some y"
      proof (cases "capture_symmetric dev k")
        case True
        then have d: "is_dio_strb_symmetric (captures dev (captured dev + k)) bits"
          using bits by (simp add: capture_symmetric_def)
        from body a d True lt show ?thesis
          by (simp add: getv_after after_captures_good)
      next
        case False
        then have d: "\<not> is_dio_strb_symmetric (captures dev (captured dev + k)) bits"
          using bits by (simp add: capture_symmetric_def)
        from body a d False lt show ?thesis
          by (simp add: getv_after after_captures_bad Let_def)
      qed
      then show False using IH by blast
    qed
  qed
  then show ?thesis
    by (cases "strobe_loop bits (?T k) (?F k) (after_captures dev k)") blast+
qed

lemma streak_six_pos: "streak out v K = 6 \<Longrightarrow> 0 < K"
  by (cases K) auto

lemma ensure_symmetric_strobe_ends:
  assumes "streak (capture_symmetric dev) True K = 6 \<or> streak (capture_symmetric dev) False K = 6"
    and "\<forall>j < K. streak (capture_symmetric dev) True j < 6 \<and> streak (capture_symmetric dev) False j < 6"
  shows "ensure_symmetric_strobe dev =
           Some (streak (capture_symmetric dev) True K = 6, after_captures dev K)"
proof -
  have K: "0 < K" using assms(1) streak_six_pos by blast
  then obtain K' where K': "K = Suc K'" by (cases K) auto
  have l: "strobe_loop (strobe_bits dev) 0 0 dev =
         Some (streak (capture_symmetric dev) True K, streak (capture_symmetric dev) False K,
               after_captures dev K)"
    using strobe_loop_ends [OF refl K assms] by (simp add: after_captures_0)
  have "(0 < streak (capture_symmetric dev) True K \<and> streak (capture_symmetric dev) False K = 0) =
        (streak (capture_symmetric dev) True K = 6)"
    using assms(1) unfolding K' by (auto split: if_splits)
  with l show ?thesis by (simp add: ensure_symmetric_strobe_def)
qed

lemma ensure_symmetric_strobe_never:
  assumes "\<forall>K. streak (capture_symmetric dev) True K < 6 \<and> streak (capture_symmetric dev) False K < 6"
  shows "ensure_symmetric_strobe dev = None"
  using strobe_loop_never [OF refl assms, of 0]
  by (simp add: ensure_symmetric_strobe_def after_captures_0)

lemma is_dio_strb_symmetric_Nil [simp]: "is_dio_strb_symmetric [] bits"
  by (induction bits) auto

lemma strobe_bits_bench [simp]: "strobe_bits (bench caps) = [4]"
  by (simp add: strobe_bits_def bench_def upt_rec)

lemma lopsided_fails [simp]: "\<not> is_dio_strb_symmetric lopsided [4]"
  by (simp add: lopsided_def strb_step_def strb_init_def)

lemma captures_bench [simp]: "captures (bench caps) = caps" "captured (bench caps) = 0"
  by (simp_all add: bench_def)

lemma outcomes_five_good: "capture_symmetric (bench five_good) = (\<lambda>k. k < 5)"
  by (auto simp: capture_symmetric_def five_good_def fun_eq_iff simp del: is_dio_strb_symmetric.simps)

lemma outcomes_alternating: "capture_symmetric (bench alternating) = even"
  by (auto simp: capture_symmetric_def alternating_def fun_eq_iff simp del: is_dio_strb_symmetric.simps)

lemma streak_five_good:
  "streak (\<lambda>k. k < 5) True k = (if k \<le> 5 then k else 0)"
  "streak (\<lambda>k. k < 5) False k = (if k \<le> 5 then 0 else k - 5)"
  by (induction k) auto

lemma streak_even_Suc: "streak even v (Suc k) = (if even k = v then 1 else 0)"
  by (induction k) auto

lemma streak_alternating: "streak even v k \<le> 1"
  by (cases k) (simp_all add: streak_even_Suc del: streak.simps(2))

lemma five_good_streaks:
  "streak (capture_symmetric (bench five_good)) True 11 = 6 \<or>
   streak (capture_symmetric (bench five_good)) False 11 = 6"
  "\<forall>j < 11. streak (capture_symmetric (bench five_good)) True j < 6 \<and>
              streak (capture_symmetric (bench five_good)) False j < 6"
  by (auto simp: outcomes_five_good streak_five_good)

lemma alternating_streaks:
  "\<forall>K. streak (capture_symmetric (bench alternating)) True K < 6 \<and>
       streak (capture_symmetric (bench alternating)) False K < 6"
proof (intro allI conjI)
  fix K
  show "streak (capture_symmetric (bench alternating)) True K < 6"
    using streak_alternating [of True K] by (simp add: outcomes_alternating)
  show "streak (capture_symmetric (bench alternating)) False K < 6"
    using streak_alternating [of False K] by (simp add: outcomes_alternating)
qed

text \<open>
  C4, as the code has it. The loop takes traces until six symmetric traces in a row
  have been seen, and then returns true, or until six asymmetric traces in a row have
  been seen, each followed by the resynchronisation, and then returns false, which
  makes the calibration return false. The loop ends with the first such run of six.
  When the outcomes never contain six equal ones in a row, the loop does not end.
\<close>

theorem strobe_recovery_six:
  "((streak (capture_symmetric dev) True K = 6 \<or> streak (capture_symmetric dev) False K = 6) \<and>
    (\<forall>j < K. streak (capture_symmetric dev) True j < 6 \<and> streak (capture_symmetric dev) False j < 6) \<longrightarrow>
      ensure_symmetric_strobe dev =
        Some (streak (capture_symmetric dev) True K = 6, after_captures dev K) \<and>
      (streak (capture_symmetric dev) False K = 6 \<longrightarrow>
         calibrate_dio_protocol awgs_and_sequences dev = Some (Inr False, after_captures dev K))) \<and>
   ((\<forall>K. streak (capture_symmetric dev) True K < 6 \<and> streak (capture_symmetric dev) False K < 6) \<longrightarrow>
      ensure_symmetric_strobe dev = None)"
proof -
  let ?T = "streak (capture_symmetric dev) True" and ?F = "streak (capture_symmetric dev) False"
  have a: "ensure_symmetric_strobe dev = Some (?T K = 6, after_captures dev K)"
    if "?T K = 6 \<or> ?F K = 6" "\<forall>j < K. ?T j < 6 \<and> ?F j < 6"
    using that by (rule ensure_symmetric_strobe_ends)
  have b: "calibrate_dio_protocol awgs_and_sequences dev = Some (Inr False, after_captures dev K)"
    if "?T K = 6 \<or> ?F K = 6" "\<forall>j < K. ?T j < 6 \<and> ?F j < 6" "?F K = 6"
  proof -
    have "?T K \<noteq> 6" using that(3) by (cases K) (auto split: if_splits)
    with a [OF that(1,2)] show ?thesis by (simp add: calibrate_dio_protocol_def)
  qed
  have c: "ensure_symmetric_strobe dev = None" if "\<forall>K. ?T K < 6 \<and> ?F K < 6"
    using that by (rule ensure_symmetric_strobe_never)
  from a b c show ?thesis by blast
qed

theorem strobe_recovery_six_witness:
  "streak (capture_symmetric (bench five_good)) False 11 = 6 \<and>
   streak (capture_symmetric (bench five_good)) True 10 = 0 \<and>
   streak (capture_symmetric (bench five_good)) False 10 = 5 \<and>
   ensure_symmetric_strobe (bench five_good) = Some (False, after_captures (bench five_good) 11) \<and>
   calibrate_dio_protocol [(0, [1])] (bench five_good) =
     Some (Inr False, after_captures (bench five_good) 11) \<and>
   streak (capture_symmetric (bench alternating)) True 7 = 1 \<and>
   ensure_symmetric_strobe (bench alternating) = None"
proof -
  have v: "streak (capture_symmetric (bench five_good)) False 11 = 6"
    "streak (capture_symmetric (bench five_good)) True 11 \<noteq> 6"
    "streak (capture_symmetric (bench five_good)) True 10 = 0"
    "streak (capture_symmetric (bench five_good)) False 10 = 5"
    by (simp_all add: outcomes_five_good streak_five_good)
  have "(7::nat) = Suc 6" by simp
  then have w: "streak (capture_symmetric (bench alternating)) True 7 = 1"
    by (simp only: outcomes_alternating streak_even_Suc) simp
  from strobe_recovery_six [of "bench five_good" 11 "[(0, [1])]"]
    strobe_recovery_six [of "bench alternating" 0 "[]"]
    five_good_streaks alternating_streaks v w
  show ?thesis by simp
qed

text \<open>
  C4, as the specification states it, fails twice. After five symmetric traces the
  loop goes on: here it then meets six asymmetric ones and returns false with the
  eleventh trace. And with outcomes that alternate the loop never returns.
\<close>

theorem strobe_five_counterexample:
  "map (capture_symmetric (bench five_good)) [0..<5] = replicate 5 True \<and>
   ensure_symmetric_strobe (bench five_good) = Some (False, after_captures (bench five_good) 11) \<and>
   captured (after_captures (bench five_good) 11) = 11 \<and>
   map (capture_symmetric (bench alternating)) [0..<4] = [True, False, True, False] \<and>
   ensure_symmetric_strobe (bench alternating) = None"
proof -
  have a: "map (capture_symmetric (bench five_good)) [0..<5] = replicate 5 True"
    by (simp add: outcomes_five_good upt_rec numeral_eq_Suc)
  have "streak (capture_symmetric (bench five_good)) True 11 \<noteq> 6"
    by (simp add: outcomes_five_good streak_five_good)
  with ensure_symmetric_strobe_ends [OF five_good_streaks]
  have b: "ensure_symmetric_strobe (bench five_good) = Some (False, after_captures (bench five_good) 11)"
    by simp
  have c: "captured (after_captures (bench five_good) 11) = 11"
    by (simp add: after_captures_def)
  have d: "map (capture_symmetric (bench alternating)) [0..<4] = [True, False, True, False]"
    by (simp add: outcomes_alternating upt_rec)
  have e: "ensure_symmetric_strobe (bench alternating) = None"
    using alternating_streaks by (rule ensure_symmetric_strobe_never)
  from a b c d e show ?thesis by blast
qed


section \<open>The calibration\<close>

subsection \<open>The loops over the channels\<close>

lemma collect_valid_delays_Cons:
  "collect_valid_delays ((awg, e) # rest) acc dev =
     (if fst (find_valid_delays awg e dev) \<noteq> {}
      then collect_valid_delays rest (acc @ [fst (find_valid_delays awg e dev)])
             (snd (find_valid_delays awg e dev))
      else (None, snd (find_valid_delays awg e dev)))"
  by (simp add: split_beta)

lemma collect_valid_delays_all:
  "{} \<notin> set (search_results chans dev) \<Longrightarrow>
   collect_valid_delays chans acc dev = (Some (acc @ search_results chans dev), search_device chans dev)"
proof (induction chans arbitrary: acc dev)
  case Nil
  then show ?case by simp
next
  case (Cons c chans)
  obtain awg e where c: "c = (awg, e)" by (cases c)
  from Cons.prems show ?case
    unfolding c collect_valid_delays_Cons by (auto simp: Cons.IH)
qed

lemma collect_valid_delays_none:
  "{} \<in> set (search_results chans dev) \<Longrightarrow> fst (collect_valid_delays chans acc dev) = None"
proof (induction chans arbitrary: acc dev)
  case Nil
  then show ?case by simp
next
  case (Cons c chans)
  obtain awg e where c: "c = (awg, e)" by (cases c)
  from Cons.prems show ?case
    unfolding c collect_valid_delays_Cons by (auto simp: Cons.IH)
qed

lemma search_results_length [simp]: "length (search_results chans dev) = length chans"
  by (induction chans dev rule: search_results.induct) auto

lemma same_setup_refl [simp]: "same_setup dev dev"
  by (simp add: same_setup_def)

lemma same_setup_trans: "same_setup a b \<Longrightarrow> same_setup b c \<Longrightarrow> same_setup a c"
  by (simp add: same_setup_def)

lemma same_setup_search_device: "same_setup dev (search_device chans dev)"
proof (induction chans dev rule: search_device.induct)
  case (1 dev)
  then show ?case by simp
next
  case (2 awg sequence rest dev)
  then show ?case
    using find_valid_delays_view(3) [of dev awg sequence] same_setup_trans by auto
qed

lemma same_setup_set_dio_delay: "same_setup dev (set_dio_delay awg sm dm delay dev)"
  by (simp add: same_setup_def)

lemma configure_delays_Cons:
  "configure_delays ((awg, s) # rest) m dev =
     configure_delays rest m
       (set_dio_delay awg (push_bit (dio_strobe_index dev awg) 1)
          (push_bit (dio_mask_shift dev awg) (dio_mask_value dev awg) OR
           push_bit (dio_valid_index dev awg) 1) m dev)"
  by (simp add: configure_delays_def Let_def)

lemma configure_delays_Nil [simp]: "configure_delays [] m dev = dev"
  by (simp add: configure_delays_def)

lemma same_setup_configure_delays: "same_setup dev (configure_delays chans m dev)"
proof (induction chans arbitrary: dev)
  case Nil
  then show ?case by simp
next
  case (Cons c chans)
  obtain awg s where c: "c = (awg, s)" by (cases c)
  show ?case
    unfolding c configure_delays_Cons
    by (rule same_setup_trans [OF same_setup_set_dio_delay Cons.IH])
qed

lemma configure_delays_other:
  "awg \<notin> fst ` set chans \<Longrightarrow>
   dio_delay_value (configure_delays chans m dev) awg = dio_delay_value dev awg"
proof (induction chans arbitrary: dev)
  case Nil
  then show ?case by simp
next
  case (Cons c chans)
  obtain a s where c: "c = (a, s)" by (cases c)
  with Cons.prems have "a \<noteq> awg" "awg \<notin> fst ` set chans" by auto
  then show ?case
    unfolding c configure_delays_Cons
    by (simp add: Cons.IH set_dio_delay_value fun_eq_iff)
qed

lemma configure_delays_value:
  "awg \<in> fst ` set chans \<Longrightarrow> i < 32 \<Longrightarrow>
   dio_delay_value (configure_delays chans m dev) awg i =
     bit_delay (push_bit (dio_strobe_index dev awg) 1)
       (push_bit (dio_mask_shift dev awg) (dio_mask_value dev awg) OR
        push_bit (dio_valid_index dev awg) 1)
       (max 0 (min m 6 - 3)) (max 0 (3 - min m 6)) i"
proof (induction chans arbitrary: dev)
  case Nil
  then show ?case by simp
next
  case (Cons c chans)
  obtain a s where c: "c = (a, s)" by (cases c)
  let ?dev' = "set_dio_delay a (push_bit (dio_strobe_index dev a) 1)
          (push_bit (dio_mask_shift dev a) (dio_mask_value dev a) OR
           push_bit (dio_valid_index dev a) 1) m dev"
  show ?case
  proof (cases "awg \<in> fst ` set chans")
    case True
    from Cons.IH [OF True Cons.prems(2), of ?dev'] show ?thesis
      unfolding c configure_delays_Cons by simp
  next
    case False
    with Cons.prems(1) c have "a = awg" by auto
    with False Cons.prems(2) show ?thesis
      unfolding c configure_delays_Cons
      by (simp add: configure_delays_other set_dio_delay_value)
  qed
qed

lemma try_delay_subset:
  "set (fst (try_delay dec e cm delay st)) \<subseteq> insert delay (set (fst st))"
  by (auto simp: try_delay_def Let_def)

lemma fold_try_delay_subset:
  "set (fst (fold (try_delay dec e cm) ds st)) \<subseteq> set ds \<union> set (fst st)"
proof (induction ds arbitrary: st)
  case Nil
  then show ?case by simp
next
  case (Cons d ds)
  show ?case
    using Cons.IH [of "try_delay dec e cm d st"] try_delay_subset [of dec e cm d st]
    by auto
qed

lemma find_valid_delays_range: "fst (find_valid_delays awg e dev) \<subseteq> {0..6}"
  using fold_try_delay_subset [of "decode dev awg" e "dio_mask_value dev awg" "[0..6]" "([], captured dev)"]
  by (auto simp: find_valid_delays_view(1))

lemma search_results_range: "S \<in> set (search_results chans dev) \<Longrightarrow> S \<subseteq> {0..6}"
  by (induction chans dev rule: search_results.induct) (use find_valid_delays_range in auto)

lemma strobe_loop_same_setup:
  assumes s: "strobe_loop b g bd d = Some y"
  shows "same_setup d (snd (snd y))"
proof (rule strobe_loop.raw_induct [OF _ s])
  fix f b g bd d y
  assume IH: "\<And>b g bd d y. f b g bd d = Some y \<Longrightarrow> same_setup d (snd (snd y))"
    and body: "(case getv d of
          (data, dev1) \<Rightarrow>
            if is_dio_strb_symmetric data b
            then if 5 < g + 1 then Some (g + 1, 0, dev1) else f b (g + 1) 0 dev1
            else let dev2 = resync_clock dev1
                 in if 5 < bd + 1 then Some (0, bd + 1, dev2) else f b 0 (bd + 1) dev2) = Some y"
  let ?d1 = "d\<lparr>captured := Suc (captured d)\<rparr>"
  let ?d2 = "?d1\<lparr>referenceclock_source := 1\<rparr>"
  have 1: "same_setup d ?d1" and 2: "same_setup d ?d2"
    by (simp_all add: same_setup_def)
  show "same_setup d (snd (snd y))"
  proof (cases "is_dio_strb_symmetric (captures d (captured d)) b")
    case True
    show ?thesis
    proof (cases "5 < g + 1")
      case g: True
      with body True have "y = (g + 1, 0, ?d1)" by (simp add: getv_def)
      with 1 show ?thesis by simp
    next
      case g: False
      with body True have "f b (g + 1) 0 ?d1 = Some y" by (simp add: getv_def)
      from 1 IH [OF this] show ?thesis by (rule same_setup_trans)
    qed
  next
    case False
    show ?thesis
    proof (cases "5 < bd + 1")
      case g: True
      with body False have "y = (0, bd + 1, ?d2)" by (simp add: getv_def resync_clock_eq)
      with 2 show ?thesis by simp
    next
      case g: False
      with body False have "f b 0 (bd + 1) ?d2 = Some y" by (simp add: getv_def resync_clock_eq)
      from 2 IH [OF this] show ?thesis by (rule same_setup_trans)
    qed
  qed
qed

lemma ensure_symmetric_strobe_same_setup:
  "ensure_symmetric_strobe dev = Some (symmetric, dev1) \<Longrightarrow> same_setup dev dev1"
  using strobe_loop_same_setup [of "strobe_bits dev" 0 0 dev]
  by (auto simp: ensure_symmetric_strobe_def split: option.splits)


subsection \<open>Running the calibration on the example instruments\<close>

lemma streak_all: "(\<forall>i < k. out i = v) \<Longrightarrow> streak out v k = k"
  by (induction k) auto

lemma six_symmetric:
  assumes "\<forall>k < 6. capture_symmetric dev k"
  shows "ensure_symmetric_strobe dev = Some (True, after_captures dev 6)"
proof -
  have 6: "streak (capture_symmetric dev) True 6 = 6"
    using assms by (intro streak_all) simp
  have lt: "\<forall>j < 6. streak (capture_symmetric dev) True j < 6 \<and> streak (capture_symmetric dev) False j < 6"
    using streak_le [of "capture_symmetric dev"] by (auto intro: le_less_trans)
  from ensure_symmetric_strobe_ends [of dev 6, OF _ lt] 6 show ?thesis by simp
qed

lemma after_captures_simps [simp]:
  "captured (after_captures dev k) = captured dev + k"
  "captures (after_captures dev k) = captures dev"
  "dio_mask_value (after_captures dev k) = dio_mask_value dev"
  by (simp_all add: after_captures_def)

lemma decode_after_captures [simp]: "decode (after_captures dev k) = decode dev"
  by (simp add: decode_def [abs_def] after_captures_def)

lemma decode_same_setup: "same_setup dev dev' \<Longrightarrow> decode dev' = decode dev"
  by (simp add: decode_def [abs_def] same_setup_def)

lemma after_find_valid_delays [simp]:
  "decode (snd (find_valid_delays awg e dev)) = decode dev"
  "dio_mask_value (snd (find_valid_delays awg e dev)) = dio_mask_value dev"
  using find_valid_delays_view(3) [of dev awg e]
  by (simp_all add: decode_same_setup) (simp add: same_setup_def)

lemma decode_traces:
  "analyze_dio_data [] 16 3 32 2 7 0 = ([], [])"
  "analyze_dio_data in_time 16 3 32 2 7 0 = ([1, 2, 3], [])"
  "analyze_dio_data too_late 16 3 32 2 7 0 = ([2], [1])"
  by (simp_all add: in_time_def too_late_def analyze_dio_data_def analyze_sample_def get_edges_def)

lemma decode_bench:
  "decode (bench caps) awg k = analyze_dio_data (caps k) 16 3 32 2 7 0"
  by (simp add: decode_def bench_def)

lemma first_six_symmetric:
  "\<forall>k < 6. capture_symmetric (bench two_windows) k"
  "\<forall>k < 6. capture_symmetric (bench disjoint_windows) k"
  "\<forall>k < 6. capture_symmetric (bench far_windows) k"
  by (simp_all add: capture_symmetric_def two_windows_def disjoint_windows_def far_windows_def
      del: is_dio_strb_symmetric.simps)

lemmas run_search = search_results.simps find_valid_delays_view(1,2) upto_0_6 try_delay_pair
  retry_from_numeral valid_sequence_def decode_bench decode_traces

lemma two_windows_sets:
  "search_results [(0, [1, 2, 3]), (2, [1, 2, 3])] (after_captures (bench two_windows) 6) =
     [{1, 2, 3, 4}, {2, 3, 4, 5}]"
  by (simp add: run_search two_windows_def)

lemma calibrate_raises:
  assumes "ensure_symmetric_strobe dev = Some (True, dev1)"
    and "{} \<notin> set (search_results chans dev1)"
  shows "chans = [] \<Longrightarrow> calibrate_dio_protocol chans dev = Some (Inl TypeError, dev1)"
    and "chans \<noteq> [] \<Longrightarrow> \<Inter> (set (search_results chans dev1)) = {} \<Longrightarrow>
         calibrate_dio_protocol chans dev = Some (Inl ValueError, search_device chans dev1)"
proof -
  have c: "collect_valid_delays chans [] dev1 = (Some (search_results chans dev1), search_device chans dev1)"
    using collect_valid_delays_all [OF assms(2), of "[]"] by simp
  show "calibrate_dio_protocol chans dev = Some (Inl TypeError, dev1)" if "chans = []"
    using that assms(1) by (simp add: calibrate_dio_protocol_def)
  show "calibrate_dio_protocol chans dev = Some (Inl ValueError, search_device chans dev1)"
    if "chans \<noteq> []" "\<Inter> (set (search_results chans dev1)) = {}"
  proof -
    have "search_results chans dev1 \<noteq> []" using that(1) by (cases chans) auto
    with that(2) c assms(1) show ?thesis
      by (simp add: calibrate_dio_protocol_def Let_def)
  qed
qed

lemma disjoint_windows_sets:
  "search_results [(0, [1, 2, 3]), (2, [1, 2, 3])] (after_captures (bench disjoint_windows) 6) =
     [{0, 1}, {5, 6}]"
  by (simp add: run_search disjoint_windows_def)

lemma far_windows_sets:
  "search_results [(0, [1, 2, 3]), (2, [1, 2, 3])] (after_captures (bench far_windows) 6) =
     [{0}, {6}]"
  by (simp add: run_search far_windows_def)

lemma two_windows_no_match:
  "search_results [(0, [5])] (after_captures (bench two_windows) 6) = [{}]"
  by (simp add: run_search two_windows_def)

subsection \<open>The result of the calibration\<close>

text \<open>
  C1, as the code has it. Let the strobe check with recovery end. If it fails, the
  calibration returns false. If it succeeds and a channel has an empty Valid-Delay Set,
  the calibration returns false. If it succeeds, there is at least one channel, no
  Valid-Delay Set is empty and their intersection is not empty, the calibration applies
  the maximum of the intersection to every channel through \<open>set_dio_delay\<close>, so that
  every bit of every channel carries the delay that this maximum gives it, and returns
  true. The sets \<open>{1, 2, 3, 4}\<close> and \<open>{2, 3, 4, 5}\<close> intersect in \<open>{2, 3, 4}\<close>, and the
  delay 4 is applied. Nothing is said here of an empty list of channels or of an empty
  intersection.
\<close>

theorem calibrate_outcomes:
  assumes "ensure_symmetric_strobe dev = Some (symmetric, dev1)"
  shows
    "(\<not> symmetric \<longrightarrow> calibrate_dio_protocol chans dev = Some (Inr False, dev1)) \<and>
     (symmetric \<and> {} \<in> set (search_results chans dev1) \<longrightarrow>
        map_option fst (calibrate_dio_protocol chans dev) = Some (Inr False)) \<and>
     (symmetric \<and> chans \<noteq> [] \<and> {} \<notin> set (search_results chans dev1) \<and>
      \<Inter> (set (search_results chans dev1)) \<noteq> {} \<longrightarrow>
        calibrate_dio_protocol chans dev =
          Some (Inr True,
                configure_delays chans (Max (\<Inter> (set (search_results chans dev1))))
                  (search_device chans dev1)) \<and>
        (\<forall>awg \<in> fst ` set chans. \<forall>i < 32.
           dio_delay_value
             (configure_delays chans (Max (\<Inter> (set (search_results chans dev1))))
                (search_device chans dev1)) awg i =
           bit_delay (push_bit (dio_strobe_index dev awg) 1)
             (push_bit (dio_mask_shift dev awg) (dio_mask_value dev awg) OR
              push_bit (dio_valid_index dev awg) 1)
             (max 0 (Max (\<Inter> (set (search_results chans dev1))) - 3))
             (max 0 (3 - Max (\<Inter> (set (search_results chans dev1))))) i)) \<and>
     (symmetric \<and> search_results chans dev1 = [{1, 2, 3, 4}, {2, 3, 4, 5}] \<longrightarrow>
        \<Inter> (set (search_results chans dev1)) = {2, 3, 4} \<and>
        calibrate_dio_protocol chans dev =
          Some (Inr True, configure_delays chans 4 (search_device chans dev1)))"
proof -
  let ?sets = "search_results chans dev1"
  let ?m = "Max (\<Inter> (set ?sets))"
  let ?final = "configure_delays chans ?m (search_device chans dev1)"
  have a: "calibrate_dio_protocol chans dev = Some (Inr False, dev1)" if "\<not> symmetric"
    using that assms by (simp add: calibrate_dio_protocol_def)
  have b: "map_option fst (calibrate_dio_protocol chans dev) = Some (Inr False)"
    if "symmetric" "{} \<in> set ?sets"
  proof -
    have "fst (collect_valid_delays chans [] dev1) = None"
      using that(2) by (rule collect_valid_delays_none)
    then obtain dev2 where "collect_valid_delays chans [] dev1 = (None, dev2)"
      by (cases "collect_valid_delays chans [] dev1") auto
    with that(1) assms show ?thesis by (simp add: calibrate_dio_protocol_def)
  qed
  have c: "calibrate_dio_protocol chans dev = Some (Inr True, ?final)"
    if "symmetric" "chans \<noteq> []" "{} \<notin> set ?sets" "\<Inter> (set ?sets) \<noteq> {}"
  proof -
    have "collect_valid_delays chans [] dev1 = (Some ?sets, search_device chans dev1)"
      using collect_valid_delays_all [OF that(3), of "[]"] by simp
    moreover have "?sets \<noteq> []"
      using that(2) by (cases chans) auto
    ultimately show ?thesis
      using that(1,4) assms by (simp add: calibrate_dio_protocol_def Let_def)
  qed
  have d: "dio_delay_value ?final awg i =
           bit_delay (push_bit (dio_strobe_index dev awg) 1)
             (push_bit (dio_mask_shift dev awg) (dio_mask_value dev awg) OR
              push_bit (dio_valid_index dev awg) 1)
             (max 0 (?m - 3)) (max 0 (3 - ?m)) i"
    if "chans \<noteq> []" "\<Inter> (set ?sets) \<noteq> {}" "awg \<in> fst ` set chans" "i < 32" for awg i
  proof -
    have ne: "set ?sets \<noteq> {}"
      using that(1) by (cases chans) auto
    then obtain S where S: "S \<in> set ?sets" by (cases ?sets) auto
    then have "S \<subseteq> {0..6}" by (rule search_results_range)
    with S have sub: "\<Inter> (set ?sets) \<subseteq> {0..6}" by blast
    then have "finite (\<Inter> (set ?sets))" by (rule finite_subset) simp
    then have "?m \<in> \<Inter> (set ?sets)" using that(2) by (rule Max_in)
    with sub have m: "?m \<le> 6" by auto
    have "same_setup dev (search_device chans dev1)"
      using ensure_symmetric_strobe_same_setup [OF assms] same_setup_search_device
      by (rule same_setup_trans)
    then have cfg: "dio_strobe_index (search_device chans dev1) = dio_strobe_index dev"
      "dio_mask_shift (search_device chans dev1) = dio_mask_shift dev"
      "dio_mask_value (search_device chans dev1) = dio_mask_value dev"
      "dio_valid_index (search_device chans dev1) = dio_valid_index dev"
      by (simp_all add: same_setup_def)
    show ?thesis
      using m by (simp add: configure_delays_value [OF that(3,4)] cfg min_def)
  qed
  have e: "\<Inter> (set ?sets) = {2, 3, 4} \<and>
        calibrate_dio_protocol chans dev =
          Some (Inr True, configure_delays chans 4 (search_device chans dev1))"
    if "symmetric" "?sets = [{1, 2, 3, 4}, {2, 3, 4, 5}]"
  proof -
    have i: "\<Inter> (set ?sets) = {2, 3, 4}" unfolding that(2) by auto
    have "chans \<noteq> []" using that(2) by (cases chans) auto
    moreover have "{} \<notin> set ?sets" unfolding that(2) by simp
    moreover have "\<Inter> (set ?sets) \<noteq> {}" unfolding i by simp
    ultimately have "calibrate_dio_protocol chans dev = Some (Inr True, ?final)"
      using that(1) by (intro c)
    moreover have "?m = 4" unfolding i by simp
    ultimately show ?thesis using i by simp
  qed
  have d': "\<forall>awg \<in> fst ` set chans. \<forall>i < 32.
           dio_delay_value ?final awg i =
           bit_delay (push_bit (dio_strobe_index dev awg) 1)
             (push_bit (dio_mask_shift dev awg) (dio_mask_value dev awg) OR
              push_bit (dio_valid_index dev awg) 1)
             (max 0 (?m - 3)) (max 0 (3 - ?m)) i"
    if "chans \<noteq> []" "\<Inter> (set ?sets) \<noteq> {}"
    using d [OF that] by blast
  show ?thesis
    apply (intro conjI impI)
    subgoal by (rule a)
    subgoal by (rule b) simp_all
    subgoal by (rule c) simp_all
    subgoal by (rule d') simp_all
    subgoal using e by simp
    subgoal using e by simp
    done
qed

theorem calibrate_outcomes_witness:
  "ensure_symmetric_strobe (bench five_good) = Some (False, after_captures (bench five_good) 11) \<and>
   calibrate_dio_protocol [(0, [1, 2, 3])] (bench five_good) =
     Some (Inr False, after_captures (bench five_good) 11) \<and>
   ensure_symmetric_strobe (bench two_windows) = Some (True, after_captures (bench two_windows) 6) \<and>
   search_results [(0, [5])] (after_captures (bench two_windows) 6) = [{}] \<and>
   map_option fst (calibrate_dio_protocol [(0, [5])] (bench two_windows)) = Some (Inr False) \<and>
   search_results [(0, [1, 2, 3]), (2, [1, 2, 3])] (after_captures (bench two_windows) 6) =
     [{1, 2, 3, 4}, {2, 3, 4, 5}] \<and>
   calibrate_dio_protocol [(0, [1, 2, 3]), (2, [1, 2, 3])] (bench two_windows) =
     Some (Inr True,
           configure_delays [(0, [1, 2, 3]), (2, [1, 2, 3])] 4
             (search_device [(0, [1, 2, 3]), (2, [1, 2, 3])] (after_captures (bench two_windows) 6))) \<and>
   dio_delay_value
     (configure_delays [(0, [1, 2, 3]), (2, [1, 2, 3])] 4
        (search_device [(0, [1, 2, 3]), (2, [1, 2, 3])] (after_captures (bench two_windows) 6))) 2 4 = 1"
proof -
  let ?chans = "[(0, [1, 2, 3]), (2, [1, 2, 3])] :: (nat \<times> int list) list"
  let ?dev1 = "after_captures (bench two_windows) 6"
  have bad: "ensure_symmetric_strobe (bench five_good) = Some (False, after_captures (bench five_good) 11)"
    using ensure_symmetric_strobe_ends [OF five_good_streaks]
    by (simp add: outcomes_five_good streak_five_good)
  have good: "ensure_symmetric_strobe (bench two_windows) = Some (True, ?dev1)"
    using first_six_symmetric(1) by (rule six_symmetric)
  have i: "\<Inter> (set [{1, 2, 3, 4}, {2, 3, 4, 5 :: int}]) = {2, 3, 4}" by auto
  have m: "Max (\<Inter> (set (search_results ?chans ?dev1))) = 4"
    by (simp only: two_windows_sets i) simp
  have ne: "\<Inter> (set (search_results ?chans ?dev1)) \<noteq> {}"
    by (simp only: two_windows_sets i) simp
  note w1 = calibrate_outcomes [OF bad, of "[(0, [1, 2, 3])]"]
  note w2 = calibrate_outcomes [OF good, of "[(0, [5])]"]
  note w3 = calibrate_outcomes [OF good, of ?chans]
  have 1: "calibrate_dio_protocol [(0, [1, 2, 3])] (bench five_good) =
     Some (Inr False, after_captures (bench five_good) 11)"
    using w1 by simp
  have 2: "map_option fst (calibrate_dio_protocol [(0, [5])] (bench two_windows)) = Some (Inr False)"
    using w2 by (simp add: two_windows_no_match del: search_results.simps)
  have 3: "calibrate_dio_protocol ?chans (bench two_windows) =
     Some (Inr True, configure_delays ?chans 4 (search_device ?chans ?dev1))"
    using w3 by (simp add: two_windows_sets del: search_results.simps)
  have "\<forall>awg \<in> fst ` set ?chans. \<forall>i < 32.
           dio_delay_value (configure_delays ?chans 4 (search_device ?chans ?dev1)) awg i =
           bit_delay (push_bit (dio_strobe_index (bench two_windows) awg) 1)
             (push_bit (dio_mask_shift (bench two_windows) awg) (dio_mask_value (bench two_windows) awg) OR
              push_bit (dio_valid_index (bench two_windows) awg) 1)
             (max 0 (4 - 3)) (max 0 (3 - 4)) i"
    using w3 ne unfolding m by (simp add: two_windows_sets del: search_results.simps)
  then have 4: "dio_delay_value (configure_delays ?chans 4 (search_device ?chans ?dev1)) 2 4 = 1"
    by (simp add: bench_def bit_delay_def)
  from bad good two_windows_no_match two_windows_sets 1 2 3 4 show ?thesis by blast
qed

text \<open>
  C1, as the specification states it, fails where no channel has an empty set and yet
  there is no maximum to select: on this instrument the two channels have the sets
  \<open>{0, 1}\<close> and \<open>{5, 6}\<close>, and \<open>max\<close> raises \<open>ValueError\<close>; with no channel at all,
  \<open>set.intersection\<close> raises \<open>TypeError\<close>. Neither run returns true. And when the strobe
  outcomes alternate, the calibration does not return at all.
\<close>

theorem calibrate_raises_counterexample:
  "ensure_symmetric_strobe (bench disjoint_windows) =
     Some (True, after_captures (bench disjoint_windows) 6) \<and>
   search_results [(0, [1, 2, 3]), (2, [1, 2, 3])] (after_captures (bench disjoint_windows) 6) =
     [{0, 1}, {5, 6}] \<and>
   map_option fst (calibrate_dio_protocol [(0, [1, 2, 3]), (2, [1, 2, 3])] (bench disjoint_windows)) =
     Some (Inl ValueError) \<and>
   map_option fst (calibrate_dio_protocol [] (bench disjoint_windows)) = Some (Inl TypeError) \<and>
   calibrate_dio_protocol [(0, [1, 2, 3]), (2, [1, 2, 3])] (bench alternating) = None"
proof -
  have good: "ensure_symmetric_strobe (bench disjoint_windows) =
      Some (True, after_captures (bench disjoint_windows) 6)"
    using first_six_symmetric(2) by (rule six_symmetric)
  have "map_option fst (calibrate_dio_protocol [(0, [1, 2, 3]), (2, [1, 2, 3])] (bench disjoint_windows)) =
     Some (Inl ValueError)"
    by (subst calibrate_raises(2) [OF good]) (simp_all add: disjoint_windows_sets del: search_results.simps)
  moreover have "map_option fst (calibrate_dio_protocol [] (bench disjoint_windows)) = Some (Inl TypeError)"
    by (subst calibrate_raises(1) [OF good]) simp_all
  moreover have "calibrate_dio_protocol [(0, [1, 2, 3]), (2, [1, 2, 3])] (bench alternating) = None"
    using ensure_symmetric_strobe_never [OF alternating_streaks]
    by (simp add: calibrate_dio_protocol_def)
  ultimately show ?thesis using good disjoint_windows_sets by blast
qed

text \<open>
  C2. Every failure is to be reported through the boolean result, also when every
  channel has valid delays and no delay is valid for all of them. The code does not do
  so: with the sets \<open>{0}\<close> and \<open>{6}\<close>, both non-empty, the calibration ends in
  \<open>ValueError\<close>.
\<close>

theorem calibrate_empty_intersection_raises:
  "search_results [(0, [1, 2, 3]), (2, [1, 2, 3])] (after_captures (bench far_windows) 6) =
     [{0}, {6}] \<and>
   calibrate_dio_protocol [(0, [1, 2, 3]), (2, [1, 2, 3])] (bench far_windows) =
     Some (Inl ValueError,
           search_device [(0, [1, 2, 3]), (2, [1, 2, 3])] (after_captures (bench far_windows) 6))"
proof -
  have good: "ensure_symmetric_strobe (bench far_windows) = Some (True, after_captures (bench far_windows) 6)"
    using first_six_symmetric(3) by (rule six_symmetric)
  have "calibrate_dio_protocol [(0, [1, 2, 3]), (2, [1, 2, 3])] (bench far_windows) =
     Some (Inl ValueError,
           search_device [(0, [1, 2, 3]), (2, [1, 2, 3])] (after_captures (bench far_windows) 6))"
    by (rule calibrate_raises(2) [OF good]) (simp_all add: far_windows_sets del: search_results.simps)
  with far_windows_sets show ?thesis by blast
qed


end
